theory Spec2Isabelle
  imports Main "HOL-Library.Word"
begin

section \<open>Strings: the library functions the program calls\<close>

text \<open>
  Go strings are byte sequences; a \<^typ>\<open>string\<close> (a list of 8-bit characters) is one.
  The functions of this section are the functions of Go's \<^verbatim>\<open>strings\<close> package that the
  program calls, each at the separator the program passes.
\<close>

text \<open>\<^verbatim>\<open>strings.Split(s, sep)\<close> for a separator of one byte: one more piece than there
  are separators, so the empty string splits into one empty piece.\<close>

fun split_on :: "char \<Rightarrow> string \<Rightarrow> string list" where
  "split_on c [] = [[]]"
| "split_on c (x # xs) =
     (if x = c then [] # split_on c xs
      else (case split_on c xs of [] \<Rightarrow> [[x]] | y # ys \<Rightarrow> (x # y) # ys))"

text \<open>\<^verbatim>\<open>strings.Join(parts, sep)\<close>.\<close>

fun join_with :: "string \<Rightarrow> string list \<Rightarrow> string" where
  "join_with sep [] = []"
| "join_with sep [x] = x"
| "join_with sep (x # y # ys) = x @ sep @ join_with sep (y # ys)"

text \<open>\<^verbatim>\<open>strings.HasPrefix\<close>, \<^verbatim>\<open>strings.HasSuffix\<close>, \<^verbatim>\<open>strings.TrimPrefix\<close> and
  \<^verbatim>\<open>strings.TrimSuffix\<close>.\<close>

definition HasPrefix :: "string \<Rightarrow> string \<Rightarrow> bool" where
  "HasPrefix s p = (take (length p) s = p)"

definition HasSuffix :: "string \<Rightarrow> string \<Rightarrow> bool" where
  "HasSuffix s p = (length p \<le> length s \<and> drop (length s - length p) s = p)"

definition TrimPrefix :: "string \<Rightarrow> string \<Rightarrow> string" where
  "TrimPrefix s p = (if HasPrefix s p then drop (length p) s else s)"

definition TrimSuffix :: "string \<Rightarrow> string \<Rightarrow> string" where
  "TrimSuffix s p = (if HasSuffix s p then take (length s - length p) s else s)"

text \<open>\<^verbatim>\<open>strings.ReplaceAll(s, old, new)\<close> for \<^verbatim>\<open>old\<close> and \<^verbatim>\<open>new\<close> of one byte each.\<close>

definition ReplaceAll :: "string \<Rightarrow> char \<Rightarrow> char \<Rightarrow> string" where
  "ReplaceAll s old new = map (\<lambda>c. if c = old then new else c) s"

abbreviation slash :: char where
  "slash \<equiv> CHR ''/''"

abbreviation newline :: char where
  "newline \<equiv> CHR 0x0A"

section \<open>The store client: metadata paths and data paths\<close>

text \<open>
  \<^verbatim>\<open>GetSecret\<close> and \<^verbatim>\<open>PutSecret\<close> open with the same four lines:
  \<^verbatim>\<open>
    dataPath := secretPath
    parts := strings.Split(secretPath, "/")
    if len(parts) >= 2 && parts[1] == "metadata" {
        dataPath = parts[0] + "/data/" + strings.Join(parts[2:], "/")
    }
  \<close>
  \<open>toDataPath\<close> is that block; the request then goes to \<open>dataPath\<close>.
\<close>

definition toDataPath :: "string \<Rightarrow> string" where
  "toDataPath secretPath =
     (let parts = split_on slash secretPath in
      if length parts \<ge> 2 \<and> parts ! 1 = ''metadata''
      then parts ! 0 @ ''/data/'' @ join_with ''/'' (drop 2 parts)
      else secretPath)"

text \<open>
  The leaf branch of \<^verbatim>\<open>pullSecretsRecursivelyHelper\<close> builds the path it hands to
  \<^verbatim>\<open>GetSecret\<close>:
  \<^verbatim>\<open>
    secretPath := currentPath + "/" + key
    if len(currentPath) >= 11 && currentPath[:11] == "kv/metadata" {
        secretPath = "kv/data" + currentPath[11:] + "/" + key
    }
  \<close>
\<close>

definition leafSecretPath :: "string \<Rightarrow> string \<Rightarrow> string" where
  "leafSecretPath currentPath key =
     (if length currentPath \<ge> 11 \<and> take 11 currentPath = ''kv/metadata''
      then ''kv/data'' @ drop 11 currentPath @ ''/'' @ key
      else currentPath @ ''/'' @ key)"

text \<open>The path the payload of a leaf is fetched from: \<^verbatim>\<open>GetSecret\<close> converts what the
  walker hands it.\<close>

definition leafDataPath :: "string \<Rightarrow> string \<Rightarrow> string" where
  "leafDataPath currentPath key = toDataPath (leafSecretPath currentPath key)"

text \<open>The requirement of the specification, in its words: the data-namespace counterpart
  of a metadata path by segment substitution. Segment 1 becomes \<open>data\<close>, every other
  segment stays.\<close>

definition substituteSegment1 :: "string \<Rightarrow> string" where
  "substituteSegment1 p = join_with ''/'' ((split_on slash p)[1 := ''data''])"

section \<open>Formatting and the short hash\<close>

text \<open>\<^verbatim>\<open>fmt.Sprintf\<close> at the verbs the program uses: \<^verbatim>\<open>%d\<close> on the line numbers and
  counts of a hunk header, which are never negative, and \<^verbatim>\<open>%07x\<close> on the hash, where the
  width of seven counts the sign and the zeros come after it.\<close>

fun decOf :: "nat \<Rightarrow> string" where
  "decOf n = (if n < 10 then [''0123456789'' ! n]
              else decOf (n div 10) @ [''0123456789'' ! (n mod 10)])"

function hexOf :: "int \<Rightarrow> string" where
  "hexOf n = (if n < 16 then [''0123456789abcdef'' ! nat n]
              else hexOf (n div 16) @ [''0123456789abcdef'' ! nat (n mod 16)])"
  by pat_completeness auto
termination
  by (relation "measure nat") auto

declare decOf.simps [simp del] hexOf.simps [simp del]

definition zeroPad :: "nat \<Rightarrow> string \<Rightarrow> string" where
  "zeroPad w s = replicate (w - length s) CHR ''0'' @ s"

definition sprintf_07x :: "int \<Rightarrow> string" where
  "sprintf_07x v = (if v < 0 then CHR ''-'' # zeroPad 6 (hexOf (- v))
                    else zeroPad 7 (hexOf v))"

text \<open>Go's \<^verbatim>\<open>%\<close> truncates towards zero: the remainder has the sign of the dividend.\<close>

definition go_rem :: "int \<Rightarrow> int \<Rightarrow> int" where
  "go_rem a b = sgn a * (\<bar>a\<bar> mod \<bar>b\<bar>)"

text \<open>
  \<^verbatim>\<open>for _, c := range content\<close> walks the code points of the UTF-8 text, not its bytes:
  \<open>decodeRune\<close> is \<^verbatim>\<open>utf8.DecodeRuneInString\<close> on the bytes as numbers (a code point
  and the number of bytes it took, \<open>0xFFFD\<close> and one byte on an invalid sequence), and
  \<open>decodeRunes\<close> the sequence of code points the loop sees.
\<close>

definition RuneError :: nat where
  "RuneError = 0xFFFD"

definition decodeRune :: "nat list \<Rightarrow> nat \<times> nat" where
  "decodeRune s =
     (case s of
        [] \<Rightarrow> (RuneError, 0)
      | s0 # rest \<Rightarrow>
          if s0 < 0x80 then (s0, 1)
          else if s0 < 0xC2 \<or> 0xF4 < s0 then (RuneError, 1)
          else
            let sz = (if s0 < 0xE0 then 2 else if s0 < 0xF0 then 3 else 4 :: nat);
                lo = (if s0 = 0xE0 then 0xA0 else if s0 = 0xF0 then 0x90 else 0x80 :: nat);
                hi = (if s0 = 0xED then 0x9F else if s0 = 0xF4 then 0x8F else 0xBF :: nat)
            in if length s < sz then (RuneError, 1)
               else
                 let s1 = s ! 1 in
                 if s1 < lo \<or> hi < s1 then (RuneError, 1)
                 else if sz \<le> 2 then ((s0 mod 32) * 64 + s1 mod 64, 2)
                 else
                   let s2 = s ! 2 in
                   if s2 < 0x80 \<or> 0xBF < s2 then (RuneError, 1)
                   else if sz \<le> 3
                     then ((s0 mod 16) * 4096 + (s1 mod 64) * 64 + s2 mod 64, 3)
                   else
                     let s3 = s ! 3 in
                     if s3 < 0x80 \<or> 0xBF < s3 then (RuneError, 1)
                     else ((s0 mod 8) * 262144 + (s1 mod 64) * 4096
                             + (s2 mod 64) * 64 + s3 mod 64, 4))"

function decodeRunes :: "nat list \<Rightarrow> nat list" where
  "decodeRunes s =
     (if s = [] then []
      else fst (decodeRune s) # decodeRunes (drop (snd (decodeRune s)) s))"
  by pat_completeness auto
termination
proof (relation "measure length")
  show "wf (measure length)" by simp
next
  fix s :: "nat list"
  assume "s \<noteq> []"
  then have "0 < snd (decodeRune s)"
    by (cases s) (simp_all add: decodeRune_def Let_def)
  with \<open>s \<noteq> []\<close> show "(drop (snd (decodeRune s)) s, s) \<in> measure length"
    by simp
qed

declare decodeRunes.simps [simp del]

text \<open>
  \<^verbatim>\<open>
  func generateShortHash(content string) string {
      hash := 0
      for _, c := range content { hash = hash*31 + int(c) }
      if hash < 0 { hash = -hash }
      return fmt.Sprintf("%07x", hash%0xfffffff)
  }
  \<close>
  \<^verbatim>\<open>int\<close> has 64 bits on every platform the Makefile builds for (amd64 and arm64), and
  its arithmetic wraps around.
\<close>

definition generateShortHash :: "string \<Rightarrow> string" where
  "generateShortHash content =
     (let hash0 = foldl (\<lambda>hash c. hash * 31 + of_nat c) (0 :: 64 word)
                    (decodeRunes (map of_char content));
          hash1 = (if sint hash0 < 0 then - hash0 else hash0)
      in sprintf_07x (go_rem (sint hash1) 0xfffffff))"

section \<open>File paths: Go's path/filepath on Unix\<close>

text \<open>
  The binary runs with \<^verbatim>\<open>filepath.Separator = '/'\<close> and no volume names.
  \<^verbatim>\<open>filepath.Clean\<close> works element by element: an empty element and \<open>.\<close> go away,
  \<open>..\<close> removes the element before it when there is one to remove, is dropped at the
  root, and stays at the front of a relative path. \<open>cleanElems\<close> is that pass, with the
  elements kept so far in \<open>out\<close>.
\<close>

abbreviation Separator :: char where
  "Separator \<equiv> CHR ''/''"

fun cleanElems :: "bool \<Rightarrow> string list \<Rightarrow> string list \<Rightarrow> string list" where
  "cleanElems rooted out [] = out"
| "cleanElems rooted out (e # es) =
     (if e = '''' \<or> e = ''.'' then cleanElems rooted out es
      else if e = ''..'' then
        (if out \<noteq> [] \<and> last out \<noteq> ''..'' then cleanElems rooted (butlast out) es
         else if rooted then cleanElems rooted out es
         else cleanElems rooted (out @ [''..'']) es)
      else cleanElems rooted (out @ [e]) es)"

definition Clean :: "string \<Rightarrow> string" where
  "Clean path =
     (if path = '''' then ''.''
      else
        let rooted = (hd path = Separator);
            out = cleanElems rooted [] (split_on Separator path)
        in if rooted then ''/'' @ join_with ''/'' out
           else if out = [] then ''.''
           else join_with ''/'' out)"

text \<open>\<^verbatim>\<open>filepath.Join(a, b)\<close>: the elements from the first non-empty one on, joined and
  cleaned.\<close>

definition Join :: "string \<Rightarrow> string \<Rightarrow> string" where
  "Join a b = (if a \<noteq> '''' then Clean (a @ ''/'' @ b)
               else if b \<noteq> '''' then Clean b
               else '''')"


text \<open>
  \<^verbatim>\<open>filepath.Rel(basepath, targpath)\<close> cleans both paths, reads \<open>.\<close> as the path with
  no elements, walks past the elements the two share, and goes up once for every element
  of the base that is left. It fails when one path is rooted and the other is not, and
  when an element of the base that is left is \<open>..\<close>, which has no name to go back to
  (in a cleaned path the \<open>..\<close> come first, so it is the first one left). \<open>pathElems\<close>
  are the elements its scan sees: none in the empty path, and none after the slash of
  the root.
\<close>

datatype err =
    External string
  | RelError string string
  | ListFailed string err
  | PullFailed err
  | NoFileName string
  | MkdirFailed string err
  | ToYamlFailed err
  | WriteFileFailed string err
  | InvalidMetadataPath string
  | DirectoryMissing string string
  | ReadFileFailed string err
  | ParseYamlFailed string err
  | RelPathFailed err
  | IndexOutOfRange

fun stripCommon :: "string list \<Rightarrow> string list \<Rightarrow> string list \<times> string list" where
  "stripCommon (b # bs) (t # ts) =
     (if b = t then stripCommon bs ts else (b # bs, t # ts))"
| "stripCommon bs ts = (bs, ts)"

definition pathElems :: "string \<Rightarrow> string list" where
  "pathElems p =
     (if p = '''' then []
      else if last p = Separator then butlast (split_on Separator p)
      else split_on Separator p)"

definition Rel :: "string \<Rightarrow> string \<Rightarrow> err + string" where
  "Rel basepath targpath =
     (let base = Clean basepath; targ = Clean targpath in
      if targ = base then Inr ''.''
      else
        let base = (if base = ''.'' then '''' else base);
            targ = (if targ = ''.'' then '''' else targ);
            baseSlashed = (base \<noteq> '''' \<and> hd base = Separator);
            targSlashed = (targ \<noteq> '''' \<and> hd targ = Separator)
        in if baseSlashed \<noteq> targSlashed then Inl (RelError targpath basepath)
           else
             (case stripCommon (pathElems base) (pathElems targ) of
                (bs, ts) \<Rightarrow>
                  if bs \<noteq> [] \<and> hd bs = ''..''
                  then Inl (RelError targpath basepath)
                  else if bs \<noteq> []
                  then Inr (join_with ''/'' (replicate (length bs) ''..'' @ ts))
                  else Inr (join_with ''/'' ts)))"

section \<open>The diff engine\<close>

text \<open>
  \<^verbatim>\<open>writeHunk(diff, start, end, oldLen, newLen, lines)\<close> counts the lines of the hunk by
  their first character, writes the header and then every line. It reads neither
  \<^verbatim>\<open>end\<close> nor the two lengths. The buffer is the text written so far.
\<close>

definition writeHunk ::
  "string \<Rightarrow> nat \<Rightarrow> int \<Rightarrow> nat \<Rightarrow> nat \<Rightarrow> string list \<Rightarrow> string" where
  "writeHunk diff start end' oldLen newLen lines =
     (let (oldCount, newCount) =
            foldl (\<lambda>(oldCount, newCount) line.
                     (if HasPrefix line ''-'' \<or> HasPrefix line '' '' then oldCount + 1
                      else oldCount,
                      if HasPrefix line ''+'' \<or> HasPrefix line '' '' then newCount + 1
                      else newCount))
                  (0 :: nat, 0 :: nat) lines
      in diff @ ''@@ -'' @ decOf (start + 1) @ '','' @ decOf oldCount
              @ '' +'' @ decOf (start + 1) @ '','' @ decOf newCount @ '' @@\<newline>''
              @ concat (map (\<lambda>line. line @ ''\<newline>'') lines))"

text \<open>The variables of the loop of \<^verbatim>\<open>generateUnifiedDiff\<close>: the buffer, whether a hunk is
  open, where it starts and the lines collected for it.\<close>

record dstate =
  diff :: string
  inHunk :: bool
  hunkStart :: nat
  hunkLines :: "string list"

text \<open>Line \<open>i\<close> of a text, \<^verbatim>\<open>""\<close> past its end, as the loop reads it.\<close>

definition lineAt :: "string list \<Rightarrow> nat \<Rightarrow> string" where
  "lineAt ls i = (if i < length ls then ls ! i else '''')"

text \<open>The context collected when a hunk opens at line \<open>i\<close>: the lines of the old text from
  \<^verbatim>\<open>max(0, i-3)\<close> to \<open>i\<close>, those that exist.\<close>

definition contextBefore :: "string list \<Rightarrow> nat \<Rightarrow> string list" where
  "contextBefore existingLines i =
     map (\<lambda>j. '' '' @ existingLines ! j)
         (filter (\<lambda>j. j < length existingLines) [i - 3 ..< i])"

text \<open>The lines added for a line \<open>i\<close> at which the texts differ: the removed line, then the
  added line, each only when it exists and is not empty.\<close>

definition changeLines :: "string list \<Rightarrow> string list \<Rightarrow> nat \<Rightarrow> string list" where
  "changeLines existingLines newLines i =
     (if i < length existingLines \<and> lineAt existingLines i \<noteq> ''''
      then [''-'' @ lineAt existingLines i] else [])
     @ (if i < length newLines \<and> lineAt newLines i \<noteq> ''''
        then [''+'' @ lineAt newLines i] else [])"

text \<open>One round of the loop, at line \<open>i\<close>.\<close>

definition diffStep :: "string list \<Rightarrow> string list \<Rightarrow> dstate \<Rightarrow> nat \<Rightarrow> dstate" where
  "diffStep existingLines newLines st i =
     (let existingLine = lineAt existingLines i;
          newLine = lineAt newLines i
      in if existingLine \<noteq> newLine then
           (let st1 = (if \<not> inHunk st
                       then st\<lparr>inHunk := True, hunkStart := i - 3,
                               hunkLines := contextBefore existingLines i\<rparr>
                       else st)
            in st1\<lparr>hunkLines := hunkLines st1 @ changeLines existingLines newLines i\<rparr>)
         else if inHunk st then
           (let lines = hunkLines st @ ['' '' @ existingLine];
                contextCount = length (takeWhile (\<lambda>l. HasPrefix l '' '') (rev lines))
            in if contextCount \<ge> 3
               then st\<lparr>diff := writeHunk (diff st) (hunkStart st)
                                   (int i - int contextCount + 1)
                                   (length existingLines) (length newLines)
                                   (take (length lines - contextCount + 3) lines),
                        inHunk := False, hunkLines := lines\<rparr>
               else st\<lparr>hunkLines := lines\<rparr>)
         else st)"

text \<open>The four header lines of a diff between two versions.\<close>

definition diffHeader :: "string \<Rightarrow> string \<Rightarrow> string \<Rightarrow> string" where
  "diffHeader existing new filename =
     ''diff --git a/'' @ filename @ '' b/'' @ filename @ ''\<newline>''
     @ ''index '' @ generateShortHash existing @ ''..'' @ generateShortHash new
     @ '' 100644\<newline>''
     @ ''--- a/'' @ filename @ ''\<newline>''
     @ ''+++ b/'' @ filename @ ''\<newline>''"

definition generateUnifiedDiff :: "string \<Rightarrow> string \<Rightarrow> string \<Rightarrow> string" where
  "generateUnifiedDiff existing new filename =
     (if existing = new then ''''
      else
        let existingLines = split_on newline existing;
            newLines = split_on newline new;
            maxLines = max (length existingLines) (length newLines);
            st = foldl (diffStep existingLines newLines)
                   \<lparr>diff = diffHeader existing new filename, inHunk = False,
                    hunkStart = 0, hunkLines = []\<rparr>
                   [0 ..< maxLines]
        in if inHunk st
           then writeHunk (diff st) (hunkStart st) (int maxLines)
                  (length existingLines) (length newLines) (hunkLines st)
           else diff st)"

text \<open>
  The text \<^verbatim>\<open>showDryRunDiff\<close> builds when the fetch of the existing secret failed: five
  header lines, then the lines of the new text with a \<open>+\<close> in front. A line is written
  when \<^verbatim>\<open>line != "" || strings.HasSuffix(string(newYaml), "\n")\<close>.
\<close>

definition newFileHeader :: "string \<Rightarrow> string \<Rightarrow> string list" where
  "newFileHeader vaultPath newYaml =
     [''diff --git a/'' @ vaultPath @ '' b/'' @ vaultPath,
      ''new file mode 100644'',
      ''index 0000000..'' @ generateShortHash newYaml,
      ''--- /dev/null'',
      ''+++ b/'' @ vaultPath]"

definition newFileDiff :: "string \<Rightarrow> string \<Rightarrow> string" where
  "newFileDiff vaultPath newYaml =
     concat (map (\<lambda>line. line @ ''\<newline>'') (newFileHeader vaultPath newYaml))
     @ concat (map (\<lambda>line. ''+'' @ line @ ''\<newline>'')
                (filter (\<lambda>line. line \<noteq> '''' \<or> HasSuffix newYaml ''\<newline>'')
                   (split_on newline newYaml)))"

section \<open>The collaborators and the trace of effects\<close>

text \<open>
  The program talks to a Vault server, a file system, a YAML codec and the Go runtime.
  Each of them is a field of the environment, a function from the request to the
  answer; \<open>'p\<close> is the type of a decoded payload
  (\<^verbatim>\<open>map[string]interface{}\<close>). What the program does to them, and what it prints, is
  recorded in order in a trace, which every operation takes and returns.
  \<^item> \<open>ListSecrets\<close> is the method of that name, whose body is one HTTP request.
  \<^item> \<open>httpGet\<close> is the request of \<^verbatim>\<open>GetSecret\<close> and the decoding of its answer, at
    the data path; \<open>httpPost\<close> the encoding and the request of \<^verbatim>\<open>PutSecret\<close>.
  \<^item> \<open>Walk\<close> gives, for a root directory, the calls \<^verbatim>\<open>filepath.Walk\<close> makes to its
    function as long as that returns no error: the path, whether it is a directory,
    and the error of reading it.
  \<^item> \<open>rangeOrder\<close> is the order in which \<^verbatim>\<open>range\<close> visits a map, which Go leaves open.
\<close>

record 'p env =
  ListSecrets :: "string \<Rightarrow> err + string list"
  httpGet :: "string \<Rightarrow> err + 'p"
  httpPost :: "string \<Rightarrow> 'p \<Rightarrow> err option"
  MkdirAll :: "string \<Rightarrow> err option"
  WriteFile :: "string \<Rightarrow> string \<Rightarrow> err option"
  ReadFile :: "string \<Rightarrow> err + string"
  StatNotExist :: "string \<Rightarrow> bool"
  Walk :: "string \<Rightarrow> (string \<times> bool \<times> err option) list"
  yamlMarshal :: "'p \<Rightarrow> err + string"
  yamlUnmarshal :: "string \<Rightarrow> err + 'p"
  rangeOrder :: "(string \<times> 'p) list \<Rightarrow> (string \<times> 'p) list"

datatype 'p event =
    ReqList string
  | ReqGet string
  | ReqPost string 'p
  | FsMkdirAll string
  | FsWriteFile string string
  | FsReadFile string
  | PrintDebugGet string string
  | PrintWarnGet string err
  | PrintWarnWrite string err
  | PrintWritten string
  | PrintPushing string
  | OutputDiff string

text \<open>\<^verbatim>\<open>GetSecret\<close>: convert the path, print the debug line, send the request.\<close>

definition GetSecret ::
  "'p env \<Rightarrow> string \<Rightarrow> 'p event list \<Rightarrow> (err + 'p) \<times> 'p event list" where
  "GetSecret v secretPath tr =
     (let dataPath = toDataPath secretPath
      in (httpGet v dataPath, tr @ [PrintDebugGet secretPath dataPath, ReqGet dataPath]))"

text \<open>\<^verbatim>\<open>PutSecret\<close>: convert the path, wrap the payload and send it.\<close>

definition PutSecret ::
  "'p env \<Rightarrow> string \<Rightarrow> 'p \<Rightarrow> 'p event list \<Rightarrow> err option \<times> 'p event list" where
  "PutSecret v secretPath secretData tr =
     (let dataPath = toDataPath secretPath
      in (httpPost v dataPath secretData, tr @ [ReqPost dataPath secretData]))"

section \<open>Pull\<close>




text \<open>
  The path of the file for a secret, as \<^verbatim>\<open>writeSecretToFile\<close> computes it before it
  touches the file system.
\<close>

definition secretFilePath :: "string \<Rightarrow> string \<Rightarrow> string \<Rightarrow> err + string" where
  "secretFilePath secretPath metadataPath outputDir =
     (let relativePath = TrimPrefix (TrimPrefix secretPath metadataPath) ''/'' in
      if relativePath = '''' then Inl (NoFileName secretPath)
      else
        let parts = split_on slash metadataPath;
            targetDir = (if length parts > 2
                         then Join outputDir (join_with ''/'' (drop 2 parts))
                         else outputDir)
        in Inr (Join targetDir (relativePath @ ''.yaml'')))"





section \<open>Push\<close>

text \<open>\<^verbatim>\<open>yaml.Marshal\<close> with its error dropped, as \<^verbatim>\<open>showDryRunDiff\<close> calls it: no bytes
  when it fails.\<close>

definition marshalOrEmpty :: "'p env \<Rightarrow> 'p \<Rightarrow> string" where
  "marshalOrEmpty v x = (case yamlMarshal v x of Inl e \<Rightarrow> '''' | Inr y \<Rightarrow> y)"

definition showDryRunDiff ::
  "'p env \<Rightarrow> string \<Rightarrow> 'p \<Rightarrow> 'p event list \<Rightarrow> err option \<times> 'p event list" where
  "showDryRunDiff v vaultPath newData tr =
     (case GetSecret v vaultPath tr of
        (res, tr') \<Rightarrow>
          let existingYaml = (case res of Inl e \<Rightarrow> ''''
                                        | Inr existingData \<Rightarrow> marshalOrEmpty v existingData);
              newYaml = marshalOrEmpty v newData;
              diffOutput = (case res of
                              Inl e \<Rightarrow> newFileDiff vaultPath newYaml
                            | Inr existingData \<Rightarrow>
                                generateUnifiedDiff existingYaml newYaml vaultPath)
          in (None, if diffOutput \<noteq> '''' then tr' @ [OutputDiff diffOutput] else tr'))"

text \<open>The remote path of a file, as the function passed to \<^verbatim>\<open>filepath.Walk\<close> computes
  it from the path of the file, the base directory, the engine and the sub-path.\<close>

definition fileVaultPath :: "string \<Rightarrow> string \<Rightarrow> string \<Rightarrow> string \<Rightarrow> err + string" where
  "fileVaultPath kvEngine subPath baseDir filePath =
     (case Rel baseDir filePath of
        Inl e \<Rightarrow> Inl (RelPathFailed e)
      | Inr relativePath \<Rightarrow>
          let secretPath = ReplaceAll (TrimSuffix relativePath ''.yaml'') Separator CHR ''/''
          in if subPath \<noteq> ''''
             then Inr (kvEngine @ ''/metadata/'' @ subPath @ ''/'' @ secretPath)
             else Inr (kvEngine @ ''/metadata/'' @ secretPath))"

text \<open>The function passed to \<^verbatim>\<open>filepath.Walk\<close>, on one call.\<close>

definition pushVisit ::
  "'p env \<Rightarrow> string \<Rightarrow> string \<Rightarrow> string \<Rightarrow> bool \<Rightarrow> string \<times> bool \<times> err option
     \<Rightarrow> 'p event list \<Rightarrow> err option \<times> 'p event list" where
  "pushVisit v kvEngine subPath baseDir dryRun entry tr =
     (case entry of (filePath, isDir, walkErr) \<Rightarrow>
        (case walkErr of
           Some e \<Rightarrow> (Some e, tr)
         | None \<Rightarrow>
             if isDir \<or> \<not> HasSuffix filePath ''.yaml'' then (None, tr)
             else
               (case ReadFile v filePath of
                  Inl e \<Rightarrow> (Some (ReadFileFailed filePath e), tr @ [FsReadFile filePath])
                | Inr yamlData \<Rightarrow>
                    (case yamlUnmarshal v yamlData of
                       Inl e \<Rightarrow> (Some (ParseYamlFailed filePath e), tr @ [FsReadFile filePath])
                     | Inr secretData \<Rightarrow>
                         (case fileVaultPath kvEngine subPath baseDir filePath of
                            Inl e \<Rightarrow> (Some e, tr @ [FsReadFile filePath])
                          | Inr vaultPath \<Rightarrow>
                              if dryRun
                              then showDryRunDiff v vaultPath secretData
                                     (tr @ [FsReadFile filePath])
                              else PutSecret v vaultPath secretData
                                     (tr @ [FsReadFile filePath, PrintPushing vaultPath]))))))"

text \<open>\<^verbatim>\<open>filepath.Walk\<close>: call the function on one entry after the other, and stop at the
  first error it returns.\<close>

fun walkFiles ::
  "(string \<times> bool \<times> err option \<Rightarrow> 'p event list \<Rightarrow> err option \<times> 'p event list)
     \<Rightarrow> (string \<times> bool \<times> err option) list \<Rightarrow> 'p event list
     \<Rightarrow> err option \<times> 'p event list" where
  "walkFiles fn [] tr = (None, tr)"
| "walkFiles fn (entry # entries) tr =
     (case fn entry tr of
        (Some e, tr') \<Rightarrow> (Some e, tr')
      | (None, tr') \<Rightarrow> walkFiles fn entries tr')"

definition PushSecretsFromFiles ::
  "'p env \<Rightarrow> string \<Rightarrow> string \<Rightarrow> bool \<Rightarrow> 'p event list \<Rightarrow> err option \<times> 'p event list" where
  "PushSecretsFromFiles v inputDir metadataPath dryRun tr =
     (let parts = split_on slash metadataPath in
      if length parts < 2 \<or> parts ! 1 \<noteq> ''metadata''
      then (Some (InvalidMetadataPath metadataPath), tr)
      else
        let kvEngine = parts ! 0;
            subPath = (if length parts > 2 then join_with ''/'' (drop 2 parts) else '''');
            baseDir = (if length parts > 2 then Join inputDir subPath else inputDir)
        in if StatNotExist v baseDir
           then (Some (DirectoryMissing baseDir metadataPath), tr)
           else walkFiles (pushVisit v kvEngine subPath baseDir dryRun) (Walk v baseDir) tr)"

section \<open>A small environment to run the model on\<close>

text \<open>A server that cannot be reached and an empty directory; payloads are their own
  YAML text. The examples override the fields they need.\<close>

definition offlineEnv :: "string env" where
  "offlineEnv =
     \<lparr>ListSecrets = (\<lambda>p. Inl (External ''connection refused'')),
      httpGet = (\<lambda>p. Inl (External ''HTTP 404'')),
      httpPost = (\<lambda>p x. None),
      MkdirAll = (\<lambda>d. None),
      WriteFile = (\<lambda>f y. None),
      ReadFile = (\<lambda>f. Inl (External ''no such file'')),
      StatNotExist = (\<lambda>d. False),
      Walk = (\<lambda>d. []),
      yamlMarshal = (\<lambda>x. Inr x),
      yamlUnmarshal = (\<lambda>y. Inr y),
      rangeOrder = (\<lambda>m. m)\<rparr>"

text \<open>
  A server with one folder \<open>app\<close> under the engine \<open>kv\<close>: two secrets, of which
  \<open>broken\<close> cannot be fetched, and a folder \<open>sub\<close> with one secret, whose file cannot be
  written. Locally, a directory \<open>in/app\<close> with two files, of which \<open>a\<close> is refused by
  the server.
\<close>

definition demoEnv :: "string env" where
  "demoEnv =
     offlineEnv
       \<lparr>ListSecrets :=
          (\<lambda>p. if p = ''kv/metadata/app'' then Inr [''db'', ''broken'', ''sub/'']
                else if p = ''kv/metadata/app/sub/metadata'' then Inr [''x'']
                else Inl (External ''HTTP 404'')),
        httpGet :=
          (\<lambda>p. if p = ''kv/data/app/db'' then Inr ''user: admin\<newline>''
                else if p = ''kv/data/app/sub/metadata/x'' then Inr ''k: v\<newline>''
                else Inl (External ''HTTP 404'')),
        httpPost :=
          (\<lambda>p x. if p = ''kv/data/app/a'' then Some (External ''HTTP 403'') else None),
        WriteFile :=
          (\<lambda>f y. if f = ''out/app/sub/metadata/x.yaml'' then Some (External ''disk full'')
                  else None),
        ReadFile :=
          (\<lambda>f. if f = ''in/app/a.yaml'' \<or> f = ''in/app/b.yaml'' then Inr ''k: v\<newline>''
                else Inl (External ''no such file'')),
        Walk :=
          (\<lambda>d. if d = ''in/app''
                then [(''in/app'', True, None), (''in/app/a.yaml'', False, None),
                      (''in/app/b.yaml'', False, None)]
                else [])\<rparr>"


section \<open>The words of the specification about diffs\<close>

text \<open>A text given by its lines, each ended by a newline.\<close>

definition unlines :: "string list \<Rightarrow> string" where
  "unlines ls = concat (map (\<lambda>l. l @ ''\<newline>'') ls)"

text \<open>The lines of a text: what stands between its newlines, where a final newline
  ends the last line and starts no further one.\<close>

definition textLines :: "string \<Rightarrow> string list" where
  "textLines y = (let ps = split_on newline y in if last ps = '''' then butlast ps else ps)"

text \<open>The diff of a new secret as the specification describes it: the header lines,
  then every line of the encoded payload with a \<open>+\<close> in front.\<close>

definition claimedNewFileDiff :: "string \<Rightarrow> string \<Rightarrow> string" where
  "claimedNewFileDiff vaultPath newYaml =
     unlines (newFileHeader vaultPath newYaml @ map ((#) CHR ''+'') (textLines newYaml))"

section \<open>Names that a cleaned path keeps\<close>

text \<open>An element that \<^verbatim>\<open>filepath.Clean\<close> leaves alone: not empty, not \<open>.\<close> and not \<open>..\<close>.\<close>

definition properName :: "string \<Rightarrow> bool" where
  "properName e = (e \<noteq> '''' \<and> e \<noteq> ''.'' \<and> e \<noteq> ''..'')"

text \<open>The elements of a cleaned path: \<open>..\<close> some times (never under the root), then
  proper names; no element holds a separator.\<close>

definition cleaned :: "bool \<Rightarrow> string list \<Rightarrow> bool" where
  "cleaned rooted out =
     (\<exists>k names. out = replicate k ''..'' @ names \<and> list_all properName names
        \<and> list_all (\<lambda>e. Separator \<notin> set e) names \<and> (rooted \<longrightarrow> k = 0))"

text \<open>The text of a path with the elements \<open>out\<close>, under the root or not.\<close>

definition pathText :: "bool \<Rightarrow> string list \<Rightarrow> string" where
  "pathText rooted out = (if rooted then ''/'' @ join_with ''/'' out else join_with ''/'' out)"

text \<open>Whether a directory is under the root, and its elements once cleaned; the empty
  path has none.\<close>

definition dirRooted :: "string \<Rightarrow> bool" where
  "dirRooted T = (T \<noteq> '''' \<and> hd T = Separator)"

definition dirElems :: "string \<Rightarrow> string list" where
  "dirElems T = (if T = '''' then []
                 else cleanElems (hd T = Separator) [] (split_on Separator T))"

section \<open>Hunks\<close>

text \<open>The three kinds of line in a hunk, told by the first character as \<^verbatim>\<open>writeHunk\<close>
  tells them.\<close>

definition isContext :: "string \<Rightarrow> bool" where
  "isContext l = HasPrefix l '' ''"

definition isRemoved :: "string \<Rightarrow> bool" where
  "isRemoved l = HasPrefix l ''-''"

definition isAdded :: "string \<Rightarrow> bool" where
  "isAdded l = HasPrefix l ''+''"

text \<open>A hunk is where it starts (counted from 0) and its lines. Its text, as the
  specification gives it: the header with the start counted from 1 and the two counts,
  then the lines.\<close>

definition renderHunk :: "nat \<times> string list \<Rightarrow> string" where
  "renderHunk h =
     ''@@ -'' @ decOf (fst h + 1) @ '','' 
       @ decOf (length (filter (\<lambda>l. isRemoved l \<or> isContext l) (snd h)))
       @ '' +'' @ decOf (fst h + 1) @ '',''
       @ decOf (length (filter (\<lambda>l. isAdded l \<or> isContext l) (snd h)))
       @ '' @@\<newline>'' @ unlines (snd h)"

text \<open>The number of context lines a list of lines begins with, and ends with.\<close>

definition leadingContext :: "string list \<Rightarrow> nat" where
  "leadingContext ls = length (takeWhile isContext ls)"

definition trailingContext :: "string list \<Rightarrow> nat" where
  "trailingContext ls = length (takeWhile isContext (rev ls))"

text \<open>What a comparison by position marks at line \<open>i\<close>: nothing where the two texts
  agree; where they differ, the old line with \<open>-\<close> unless it is empty, then the new line
  with \<open>+\<close> unless it is empty.\<close>

definition positionalChange :: "string list \<Rightarrow> string list \<Rightarrow> nat \<Rightarrow> string list" where
  "positionalChange existingLines newLines i =
     (if lineAt existingLines i = lineAt newLines i then []
      else (if lineAt existingLines i \<noteq> '''' then [CHR ''-'' # lineAt existingLines i] else [])
           @ (if lineAt newLines i \<noteq> '''' then [CHR ''+'' # lineAt newLines i] else []))"

text \<open>A line of context: a space and a line on which the two texts agree.\<close>

definition matchingContext :: "string list \<Rightarrow> string list \<Rightarrow> string \<Rightarrow> bool" where
  "matchingContext existingLines newLines l =
     (\<exists>j. l = CHR '' '' # lineAt existingLines j
          \<and> lineAt existingLines j = lineAt newLines j)"

text \<open>A hunk as the specification describes it: every line is a removed, an added or
  a context line, at least one is a change, at most three context lines come before
  the first change and at most three after the last, and every context line is a line
  on which the texts agree.\<close>

definition wellFormedHunk :: "string list \<Rightarrow> string list \<Rightarrow> nat \<times> string list \<Rightarrow> bool" where
  "wellFormedHunk existingLines newLines h =
     (list_all (\<lambda>l. isRemoved l \<or> isAdded l \<or> isContext l) (snd h)
      \<and> list_ex (\<lambda>l. \<not> isContext l) (snd h)
      \<and> leadingContext (snd h) \<le> 3
      \<and> trailingContext (snd h) \<le> 3
      \<and> list_all (\<lambda>l. isContext l \<longrightarrow> matchingContext existingLines newLines l) (snd h))"

text \<open>What holds of the loop of \<open>generateUnifiedDiff\<close> before round \<open>i\<close>, with \<open>hs\<close> the
  hunks written so far: the buffer is the header and these hunks; they are well formed;
  their changes and those of the open hunk are the changes of the lines before \<open>i\<close>; an
  open hunk has a change, at most three context lines before it and fewer than three
  after, which are the lines just before \<open>i\<close>; and with no hunk open, the texts agree on
  the three lines before \<open>i\<close>.\<close>

definition openHunk :: "string list \<Rightarrow> string list \<Rightarrow> nat \<Rightarrow> string list \<Rightarrow> bool" where
  "openHunk existingLines newLines i ls =
     (list_all (\<lambda>l. isRemoved l \<or> isAdded l \<or> isContext l) ls
      \<and> list_ex (\<lambda>l. \<not> isContext l) ls
      \<and> leadingContext ls \<le> 3
      \<and> trailingContext ls < 3
      \<and> list_all (\<lambda>l. isContext l \<longrightarrow> matchingContext existingLines newLines l) ls
      \<and> (\<forall>j. i - trailingContext ls \<le> j \<and> j < i
             \<longrightarrow> lineAt existingLines j = lineAt newLines j))"

definition hunksInv ::
  "string list \<Rightarrow> string list \<Rightarrow> string \<Rightarrow> nat \<Rightarrow> dstate \<Rightarrow> (nat \<times> string list) list \<Rightarrow> bool" where
  "hunksInv existingLines newLines header i st hs =
     (diff st = header @ concat (map renderHunk hs)
      \<and> list_all (wellFormedHunk existingLines newLines) hs
      \<and> filter (\<lambda>l. \<not> isContext l)
           (concat (map snd hs) @ (if inHunk st then hunkLines st else []))
          = concat (map (positionalChange existingLines newLines) [0 ..< i])
      \<and> (inHunk st \<longrightarrow> openHunk existingLines newLines i (hunkLines st))
      \<and> (\<not> inHunk st \<longrightarrow>
            (\<forall>j. i - 3 \<le> j \<and> j < i \<longrightarrow> lineAt existingLines j = lineAt newLines j)))"

section \<open>Facts about splitting and joining\<close>

lemma split_on_nonempty [simp]: "split_on c s \<noteq> []"
  by (induction s) (auto split: list.splits)

lemma split_on_append:
  "split_on c (a @ c # b) = split_on c a @ split_on c b"
  by (induction a) (auto split: list.splits)

lemma split_on_no_sep:
  "c \<notin> set s \<Longrightarrow> split_on c s = [s]"
  by (induction s) auto

lemma split_on_pieces_no_sep:
  "p \<in> set (split_on c s) \<Longrightarrow> c \<notin> set p"
proof (induction s arbitrary: p)
  case Nil
  then show ?case by simp
next
  case (Cons x xs)
  show ?case
  proof (cases "x = c")
    case True
    with Cons show ?thesis by auto
  next
    case False
    obtain y ys where sp: "split_on c xs = y # ys"
      by (cases "split_on c xs") auto
    with Cons.prems False have "p = x # y \<or> p \<in> set ys" by auto
    then show ?thesis
    proof
      assume "p = x # y"
      moreover have "c \<notin> set y" using Cons.IH [of y] sp by simp
      ultimately show ?thesis using False by auto
    next
      assume "p \<in> set ys"
      then show ?thesis using Cons.IH [of p] sp by simp
    qed
  qed
qed

lemma join_split [simp]: "join_with [c] (split_on c s) = s"
proof (induction s)
  case Nil
  then show ?case by simp
next
  case (Cons x xs)
  obtain y ys where sp: "split_on c xs = y # ys"
    by (cases "split_on c xs") auto
  show ?case
  proof (cases "x = c")
    case True
    with Cons sp show ?thesis by simp
  next
    case False
    with Cons sp show ?thesis by (cases ys) auto
  qed
qed

lemma join_with_Cons:
  "ys \<noteq> [] \<Longrightarrow> join_with sep (x # ys) = x @ sep @ join_with sep ys"
  by (cases ys) auto

lemma join_with_append:
  "xs \<noteq> [] \<Longrightarrow> ys \<noteq> [] \<Longrightarrow>
   join_with sep (xs @ ys) = join_with sep xs @ sep @ join_with sep ys"
proof (induction xs)
  case Nil
  then show ?case by simp
next
  case (Cons x xs)
  show ?case
  proof (cases "xs = []")
    case True
    with Cons.prems show ?thesis by (simp add: join_with_Cons)
  next
    case False
    with Cons show ?thesis by (simp add: join_with_Cons)
  qed
qed

lemma split_join:
  "xs \<noteq> [] \<Longrightarrow> \<forall>p \<in> set xs. c \<notin> set p \<Longrightarrow> split_on c (join_with [c] xs) = xs"
proof (induction xs)
  case Nil
  then show ?case by simp
next
  case (Cons x xs)
  show ?case
  proof (cases "xs = []")
    case True
    with Cons.prems show ?thesis by (simp add: split_on_no_sep)
  next
    case False
    with Cons have "split_on c (join_with [c] xs) = xs" by simp
    moreover have "c \<notin> set x" using Cons.prems by simp
    ultimately show ?thesis using False
      by (simp add: join_with_Cons split_on_append split_on_no_sep)
  qed
qed

section \<open>Facts about the data path\<close>

lemma toDataPath_metadata:
  assumes "split_on slash p = e # ''metadata'' # rest"
  shows "toDataPath p = e @ ''/data/'' @ join_with ''/'' rest"
  using assms by (simp add: toDataPath_def)

lemma toDataPath_other:
  assumes "\<not> (length (split_on slash p) \<ge> 2 \<and> split_on slash p ! 1 = ''metadata'')"
  shows "toDataPath p = p"
  unfolding toDataPath_def Let_def by (rule if_not_P [OF assms])

lemma toDataPath_data:
  assumes "split_on slash p = e # ''data'' # rest"
  shows "toDataPath p = p"
  using assms by (simp add: toDataPath_def)

lemma split_on_slash_data:
  assumes "slash \<notin> set e"
  shows "split_on slash (e @ ''/data/'' @ t) = e # ''data'' # split_on slash t"
  using assms split_on_append [of slash e "''data/'' @ t"]
    split_on_append [of slash "''data''" t]
  by (simp add: split_on_no_sep)

text \<open>Converting twice is converting once: a converted path has \<open>data\<close> as segment 1.\<close>

lemma toDataPath_idem: "toDataPath (toDataPath p) = toDataPath p"
proof (cases "length (split_on slash p) \<ge> 2 \<and> split_on slash p ! 1 = ''metadata''")
  case False
  then have "toDataPath p = p" by (rule toDataPath_other)
  then show ?thesis by simp
next
  case True
  then obtain e rest where sp: "split_on slash p = e # ''metadata'' # rest"
    by (cases "split_on slash p"; cases "tl (split_on slash p)") auto
  have e: "slash \<notin> set e"
    using split_on_pieces_no_sep [of e slash p] sp by simp
  show ?thesis
    using toDataPath_metadata [OF sp] toDataPath_data [OF split_on_slash_data [OF e]]
    by simp
qed

text \<open>On a path of three segments or more the conversion is the substitution of
  segment 1.\<close>

lemma toDataPath_three_segments:
  assumes "split_on slash p = e # ''metadata'' # r # rest"
  shows "toDataPath p = substituteSegment1 p"
  using assms by (simp add: toDataPath_def substituteSegment1_def join_with_Cons)

lemma leafSecretPath_kv:
  assumes "length currentPath \<ge> 11 \<and> take 11 currentPath = ''kv/metadata''"
  shows "leafSecretPath currentPath key = ''kv/data'' @ drop 11 currentPath @ ''/'' @ key"
  unfolding leafSecretPath_def by (rule if_P [OF assms])

lemma leafSecretPath_other:
  assumes "\<not> (length currentPath \<ge> 11 \<and> take 11 currentPath = ''kv/metadata'')"
  shows "leafSecretPath currentPath key = currentPath @ ''/'' @ key"
  unfolding leafSecretPath_def by (rule if_not_P [OF assms])

text \<open>A path that begins with \<open>kv/metadata\<close> and whose segment 0 is followed by
  \<open>/metadata\<close> has the engine \<open>kv\<close>.\<close>

lemma engine_is_kv:
  assumes "slash \<notin> set e" and "take 11 (e @ ''/metadata'' @ r) = ''kv/metadata''"
  shows "e = ''kv''"
proof (cases e)
  case Nil
  with assms show ?thesis by simp
next
  case (Cons a e1)
  note c1 = this
  show ?thesis
  proof (cases e1)
    case Nil
    with c1 assms show ?thesis by simp
  next
    case (Cons b e2)
    show ?thesis
    proof (cases e2)
      case Nil
      with c1 Cons assms show ?thesis by simp
    next
      case (Cons c e3)
      with c1 \<open>e1 = b # e2\<close> assms show ?thesis by simp
    qed
  qed
qed

section \<open>Facts about pull and push\<close>



text \<open>The walk over the files stops at the first error.\<close>

lemma walkFiles_stops:
  assumes "walkFiles fn pre tr = (None, tr1)" and "fn entry tr1 = (Some e, tr2)"
  shows "walkFiles fn (pre @ entry # post) tr = (Some e, tr2)"
  using assms
proof (induction pre arbitrary: tr)
  case Nil
  then show ?case by simp
next
  case (Cons a pre)
  obtain r t where f: "fn a tr = (r, t)" by (cases "fn a tr")
  with Cons.prems(1) have r: "r = None" by (cases r) auto
  with f Cons.prems have "walkFiles fn pre t = (None, tr1)" by simp
  from Cons.IH [OF this Cons.prems(2)] show ?case using f r by simp
qed

section \<open>Facts about the diff of a new secret\<close>

lemma HasSuffix_newline: "HasSuffix y ''\<newline>'' \<longleftrightarrow> (\<exists>y'. y = y' @ ''\<newline>'')"
proof
  assume h: "HasSuffix y ''\<newline>''"
  have "y = take (length y - 1) y @ drop (length y - 1) y"
    by simp
  also have "drop (length y - 1) y = ''\<newline>''"
    using h by (simp add: HasSuffix_def)
  finally show "\<exists>y'. y = y' @ ''\<newline>''" ..
next
  assume "\<exists>y'. y = y' @ ''\<newline>''"
  then show "HasSuffix y ''\<newline>''" by (auto simp: HasSuffix_def)
qed

lemma split_on_snoc_sep: "split_on c (y @ [c]) = split_on c y @ [[]]"
  using split_on_append [of c y "[]"] by simp

text \<open>The pieces the loop of the new-file diff writes, in terms of the lines of the
  text.\<close>

lemma newFile_pieces:
  "filter (\<lambda>line. line \<noteq> '''' \<or> HasSuffix y ''\<newline>'') (split_on newline y)
     = (if HasSuffix y ''\<newline>'' then textLines y @ ['''']
        else filter (\<lambda>line. line \<noteq> '''') (textLines y))"
proof (cases "HasSuffix y ''\<newline>''")
  case True
  then obtain y' where y: "y = y' @ ''\<newline>''"
    by (auto simp: HasSuffix_newline)
  have "split_on newline y = split_on newline y' @ ['''']"
    using y split_on_snoc_sep [of newline y'] by simp
  then show ?thesis using True by (simp add: textLines_def)
next
  case False
  then have "filter (\<lambda>line. line \<noteq> '''' \<or> HasSuffix y ''\<newline>'') (split_on newline y)
               = filter (\<lambda>line. line \<noteq> '''') (split_on newline y)"
    by simp
  moreover have "filter (\<lambda>line. line \<noteq> '''') (split_on newline y)
               = filter (\<lambda>line. line \<noteq> '''') (textLines y)"
  proof (cases "last (split_on newline y) = ''''")
    case True
    have "split_on newline y = butlast (split_on newline y) @ [last (split_on newline y)]"
      by simp
    then have "split_on newline y = butlast (split_on newline y) @ ['''']"
      using True by simp
    then have "filter (\<lambda>line. line \<noteq> '''') (split_on newline y)
               = filter (\<lambda>line. line \<noteq> '''') (butlast (split_on newline y) @ [''''])"
      by simp
    then have "filter (\<lambda>line. line \<noteq> '''') (split_on newline y)
               = filter (\<lambda>line. line \<noteq> '''') (butlast (split_on newline y))"
      by simp
    then show ?thesis using True by (simp add: textLines_def)
  next
    case False
    then show ?thesis by (simp add: textLines_def)
  qed
  ultimately show ?thesis using False by simp
qed

lemma newFileDiff_lines:
  "newFileDiff p y
     = unlines (newFileHeader p y
         @ map ((#) CHR ''+'')
             (if HasSuffix y ''\<newline>'' then textLines y @ ['''']
              else filter (\<lambda>line. line \<noteq> '''') (textLines y)))"
  unfolding newFileDiff_def newFile_pieces unlines_def
  by (simp add: comp_def)

lemma newFileDiff_nonempty: "newFileDiff p y \<noteq> ''''"
  by (simp add: newFileDiff_def newFileHeader_def)

section \<open>Facts about file paths\<close>

lemma cleanElems_append:
  "cleanElems r out (xs @ ys) = cleanElems r (cleanElems r out xs) ys"
  by (induction xs arbitrary: out) auto

lemma cleanElems_proper:
  "list_all properName ys \<Longrightarrow> cleanElems r out ys = out @ ys"
  by (induction ys arbitrary: out) (auto simp: properName_def)

lemma cleanElems_dots:
  "cleanElems False (replicate j ''..'') (replicate k ''..'') = replicate (j + k) ''..''"
proof (induction k arbitrary: j)
  case 0
  then show ?case by simp
next
  case (Suc k)
  have "replicate j ''..'' = [] \<or> last (replicate j ''..'') = ''..''"
    by (cases j) auto
  then have "cleanElems False (replicate j ''..'') (replicate (Suc k) ''..'')
             = cleanElems False (replicate j ''..'' @ [''..'']) (replicate k ''..'')"
    by auto
  also have "replicate j ''..'' @ [''..''] = replicate (Suc j) ''..''"
    by (simp add: replicate_append_same)
  finally show ?case using Suc [of "Suc j"] by simp
qed

lemma cleaned_Nil: "cleaned r []"
  unfolding cleaned_def by (rule exI [of _ 0]) simp

text \<open>A cleaned list of elements is what cleaning it gives.\<close>

lemma cleanElems_cleaned:
  assumes "cleaned r out"
  shows "cleanElems r [] out = out"
proof -
  from assms obtain k names where out: "out = replicate k ''..'' @ names"
    and names: "list_all properName names" and root: "r \<longrightarrow> k = 0"
    unfolding cleaned_def by blast
  have "cleanElems r [] (replicate k ''..'') = replicate k ''..''"
  proof (cases r)
    case True
    with root show ?thesis by simp
  next
    case False
    then show ?thesis using cleanElems_dots [of 0 k] by simp
  qed
  then show ?thesis
    using out names by (simp add: cleanElems_append cleanElems_proper)
qed

lemma cleaned_snoc:
  assumes "cleaned r out" and "properName e" and "Separator \<notin> set e"
  shows "cleaned r (out @ [e])"
proof -
  from assms(1) obtain k names where out: "out = replicate k ''..'' @ names"
    and names: "list_all properName names" "list_all (\<lambda>e. Separator \<notin> set e) names"
    and root: "r \<longrightarrow> k = 0"
    unfolding cleaned_def by blast
  have "out @ [e] = replicate k ''..'' @ (names @ [e])"
    using out by simp
  moreover have "list_all properName (names @ [e])"
    using names assms by simp
  moreover have "list_all (\<lambda>e. Separator \<notin> set e) (names @ [e])"
    using names assms by simp
  ultimately show ?thesis
    unfolding cleaned_def using root by blast
qed

lemma cleaned_butlast:
  assumes "cleaned r out" and "out \<noteq> []" and "last out \<noteq> ''..''"
  shows "cleaned r (butlast out)"
proof -
  from assms(1) obtain k names where out: "out = replicate k ''..'' @ names"
    and names: "list_all properName names" "list_all (\<lambda>e. Separator \<notin> set e) names"
    and root: "r \<longrightarrow> k = 0"
    unfolding cleaned_def by blast
  have ne: "names \<noteq> []"
  proof
    assume "names = []"
    with out assms(2,3) show False by (cases "k = 0") (simp_all add: last_replicate)
  qed
  then have "butlast out = replicate k ''..'' @ butlast names"
    using out by (simp add: butlast_append)
  moreover have "list_all properName (butlast names)"
    using names(1) by (auto simp: list_all_iff dest: in_set_butlastD)
  moreover have "list_all (\<lambda>e. Separator \<notin> set e) (butlast names)"
    using names(2) by (auto simp: list_all_iff dest: in_set_butlastD)
  ultimately show ?thesis
    unfolding cleaned_def using root by blast
qed

lemma cleaned_dotdot:
  assumes "cleaned False out" and "out = [] \<or> last out = ''..''"
  shows "cleaned False (out @ [''..''])"
proof -
  from assms(1) obtain k names where out: "out = replicate k ''..'' @ names"
    and names: "list_all properName names"
    unfolding cleaned_def by blast
  have "names = []"
  proof (rule ccontr)
    assume ne: "names \<noteq> []"
    then have "last out = last names" and "out \<noteq> []" using out by simp_all
    moreover have "properName (last names)"
      using names ne by (simp add: list_all_iff)
    ultimately show False using assms(2) by (simp add: properName_def)
  qed
  then have "out @ [''..''] = replicate (Suc k) ''..'' @ []"
    using out by (simp add: replicate_append_same)
  then show ?thesis
    unfolding cleaned_def by (intro exI [of _ "Suc k"] exI [of _ "[]"]) simp
qed

text \<open>Cleaning keeps a cleaned list cleaned.\<close>

lemma cleaned_cleanElems:
  assumes "cleaned r out" and "list_all (\<lambda>e. Separator \<notin> set e) xs"
  shows "cleaned r (cleanElems r out xs)"
  using assms
proof (induction xs arbitrary: out)
  case Nil
  then show ?case by simp
next
  case (Cons e es)
  from Cons.prems have es: "list_all (\<lambda>e. Separator \<notin> set e) es"
    and e: "Separator \<notin> set e" by simp_all
  consider (skip) "e = '''' \<or> e = ''.''"
    | (up) "e = ''..''" "out \<noteq> []" "last out \<noteq> ''..''"
    | (root) "e = ''..''" "out = [] \<or> last out = ''..''" "r"
    | (front) "e = ''..''" "out = [] \<or> last out = ''..''" "\<not> r"
    | (name) "properName e"
    unfolding properName_def by blast
  then show ?case
  proof cases
    case skip
    then show ?thesis using Cons.IH [OF Cons.prems(1) es] by auto
  next
    case up
    then show ?thesis
      using Cons.IH [OF cleaned_butlast [OF Cons.prems(1) up(2,3)] es] by simp
  next
    case root
    then show ?thesis using Cons.IH [OF Cons.prems(1) es] by auto
  next
    case front
    then have "cleaned False (out @ [''..''])"
      using cleaned_dotdot [of out] Cons.prems(1) by simp
    then show ?thesis using front Cons.IH [of "out @ [''..'']", OF _ es] by auto
  next
    case name
    then show ?thesis
      using Cons.IH [OF cleaned_snoc [OF Cons.prems(1) name e] es]
      by (auto simp: properName_def)
  qed
qed

lemma split_on_slash_free: "list_all (\<lambda>e. c \<notin> set e) (split_on c s)"
  using split_on_pieces_no_sep [of _ c s] by (auto simp: list_all_iff)

lemma cleaned_cleanOut: "cleaned r (cleanElems r [] (split_on Separator p))"
  by (rule cleaned_cleanElems [OF cleaned_Nil split_on_slash_free])

lemma cleaned_elems:
  assumes "cleaned r out"
  shows "list_all (\<lambda>e. Separator \<notin> set e \<and> e \<noteq> '''' \<and> e \<noteq> ''.'') out"
proof -
  from assms obtain k names where out: "out = replicate k ''..'' @ names"
    and names: "list_all properName names" "list_all (\<lambda>e. Separator \<notin> set e) names"
    unfolding cleaned_def by blast
  show ?thesis
    unfolding out using names by (auto simp: list_all_iff properName_def)
qed

lemma cleaned_append_names:
  assumes "cleaned r out" and "list_all properName ys"
    and "list_all (\<lambda>e. Separator \<notin> set e) ys"
  shows "cleaned r (out @ ys)"
  using assms
proof (induction ys arbitrary: out)
  case Nil
  then show ?case by simp
next
  case (Cons y ys)
  then have "cleaned r (out @ [y])" by (simp add: cleaned_snoc)
  from Cons.IH [OF this] Cons.prems show ?case by simp
qed

lemma join_with_nonempty:
  assumes "xs \<noteq> []" and "hd xs \<noteq> ''''"
  shows "join_with sep xs \<noteq> ''''" and "hd (join_with sep xs) = hd (hd xs)"
  using assms by (cases xs; cases "tl xs"; auto)+

lemma join_with_nonempty_last:
  assumes "xs \<noteq> []" and "last xs \<noteq> []"
  shows "join_with sep xs \<noteq> []"
  using assms
proof (induction xs)
  case Nil
  then show ?case by simp
next
  case (Cons x xs)
  then show ?case by (cases "xs = []") (simp_all add: join_with_Cons)
qed

lemma last_join_with:
  assumes "xs \<noteq> []" and "last xs \<noteq> []"
  shows "last (join_with sep xs) = last (last xs)"
  using assms
proof (induction xs)
  case Nil
  then show ?case by simp
next
  case (Cons x xs)
  show ?case
  proof (cases "xs = []")
    case True
    then show ?thesis by simp
  next
    case False
    then have "join_with sep xs \<noteq> []"
      using Cons.prems join_with_nonempty_last [of xs sep] by simp
    then show ?thesis using Cons False by (simp add: join_with_Cons)
  qed
qed

lemma split_on_Cons_sep: "split_on c (c # s) = [] # split_on c s"
  by simp

text \<open>The text of a cleaned path: what it begins and ends with, and its elements.\<close>

lemma pathText_facts:
  assumes c: "cleaned r out"
  shows "(pathText r out \<noteq> '''' \<and> hd (pathText r out) = Separator) = r"
    and "out \<noteq> [] \<Longrightarrow> last (pathText r out) \<noteq> Separator"
    and "out \<noteq> [] \<Longrightarrow> pathText r out \<noteq> ''''"
    and "out \<noteq> [] \<Longrightarrow> split_on Separator (join_with ''/'' out) = out"
proof -
  have el: "list_all (\<lambda>e. Separator \<notin> set e \<and> e \<noteq> '''' \<and> e \<noteq> ''.'') out"
    by (rule cleaned_elems [OF c])
  show ne: "out \<noteq> [] \<Longrightarrow> pathText r out \<noteq> ''''"
    using el join_with_nonempty(1) [of out "''/''"]
    by (cases out) (auto simp: pathText_def)
  show "(pathText r out \<noteq> '''' \<and> hd (pathText r out) = Separator) = r"
  proof (cases r)
    case True
    then show ?thesis by (simp add: pathText_def)
  next
    case False
    show ?thesis
    proof (cases out)
      case Nil
      with False show ?thesis by (simp add: pathText_def)
    next
      case (Cons e es)
      with el have "e \<noteq> ''''" and "Separator \<notin> set e" by simp_all
      then have "hd e \<noteq> Separator" by (cases e) auto
      moreover have "hd (join_with ''/'' out) = hd e"
        using join_with_nonempty(2) [of out "''/''"] Cons \<open>e \<noteq> ''''\<close> by simp
      ultimately show ?thesis using False by (simp add: pathText_def)
    qed
  qed
  show "out \<noteq> [] \<Longrightarrow> last (pathText r out) \<noteq> Separator"
  proof -
    assume o: "out \<noteq> []"
    then have l: "last out \<noteq> ''''" and s: "Separator \<notin> set (last out)"
      using el by (auto simp: list_all_iff)
    then have "last (last out) \<noteq> Separator"
      by (cases "last out" rule: rev_cases) auto
    moreover have "last (join_with ''/'' out) = last (last out)"
      by (rule last_join_with [OF o l])
    moreover have "join_with ''/'' out \<noteq> ''''"
      by (rule join_with_nonempty_last [OF o l])
    ultimately show ?thesis by (simp add: pathText_def)
  qed
  show "out \<noteq> [] \<Longrightarrow> split_on Separator (join_with ''/'' out) = out"
    using el split_join [of out Separator] by (auto simp: list_all_iff)
qed

lemma pathElems_pathText:
  assumes c: "cleaned r out"
  shows "pathElems (pathText r out) = (if r then '''' # out else out)"
proof (cases "out = []")
  case True
  then show ?thesis by (simp add: pathElems_def pathText_def)
next
  case False
  note f = pathText_facts [OF c]
  have "split_on Separator (pathText r out) = (if r then '''' # out else out)"
    using f(4) [OF False] by (simp add: pathText_def)
  then show ?thesis
    using f(2) [OF False] f(3) [OF False] by (simp add: pathElems_def)
qed

lemma cleanElems_pathText:
  assumes c: "cleaned r out"
  shows "cleanElems r [] (split_on Separator (pathText r out)) = out"
proof (cases "out = []")
  case True
  then show ?thesis by (simp add: pathText_def)
next
  case False
  have "split_on Separator (pathText r out) = (if r then '''' # out else out)"
    using pathText_facts(4) [OF c False] by (simp add: pathText_def)
  then show ?thesis using cleanElems_cleaned [OF c] by (cases r) simp_all
qed

text \<open>Cleaning in terms of elements, and cleaning a cleaned path.\<close>

lemma Clean_elems:
  assumes "p \<noteq> ''''"
  shows "Clean p = (if hd p \<noteq> Separator \<and> cleanElems (hd p = Separator) [] (split_on Separator p) = []
                    then ''.''
                    else pathText (hd p = Separator)
                           (cleanElems (hd p = Separator) [] (split_on Separator p)))"
  using assms by (simp add: Clean_def pathText_def Let_def)

lemma Clean_pathText:
  assumes c: "cleaned r out" and ne: "r \<or> out \<noteq> []"
  shows "Clean (pathText r out) = pathText r out"
proof -
  have r: "(pathText r out \<noteq> '''' \<and> hd (pathText r out) = Separator) = r"
    by (rule pathText_facts(1) [OF c])
  have n: "pathText r out \<noteq> ''''"
    using ne pathText_facts(3) [OF c] by (auto simp: pathText_def)
  from r n have h: "(hd (pathText r out) = Separator) = r" by simp
  show ?thesis
    using Clean_elems [OF n] h cleanElems_pathText [OF c] ne by auto
qed

lemma stripCommon_prefix: "stripCommon xs (xs @ ys) = ([], ys)"
  by (induction xs) simp_all

lemma cleaned_dirElems: "cleaned (dirRooted T) (dirElems T)"
  by (simp add: dirRooted_def dirElems_def cleaned_Nil cleaned_cleanOut)

lemma split_on_hd:
  assumes "hd (split_on c s) \<noteq> []"
  shows "s \<noteq> []" and "hd s \<noteq> c"
  using assms by (cases s; auto split: if_splits)+

lemma pathText_not_dot:
  assumes c: "cleaned r out"
  shows "pathText r out \<noteq> ''.''"
proof
  assume eq: "pathText r out = ''.''"
  have el: "list_all (\<lambda>e. Separator \<notin> set e \<and> e \<noteq> '''' \<and> e \<noteq> ''.'') out"
    by (rule cleaned_elems [OF c])
  from eq have nr: "\<not> r" by (auto simp: pathText_def split: if_splits)
  with eq have j: "join_with ''/'' out = ''.''" by (simp add: pathText_def)
  then have "out \<noteq> []" by auto
  from pathText_facts(4) [OF c this] j have "out = [''.'']" by simp
  with el show False by simp
qed

text \<open>Joining names onto a directory, and the base that \<open>Rel\<close> starts from.\<close>

lemma Join_names:
  assumes names: "list_all properName (split_on Separator S)"
  shows "Join T S = pathText (dirRooted T) (dirElems T @ split_on Separator S)"
proof -
  have hdS: "hd (split_on Separator S) \<noteq> []"
    using names by (cases "split_on Separator S") (auto simp: properName_def)
  note S = split_on_hd [OF hdS]
  show ?thesis
  proof (cases "T = ''''")
    case True
    have "cleanElems False [] (split_on Separator S) = split_on Separator S"
      using cleanElems_proper [OF names, of False "[]"] by simp
    then have "Clean S = pathText False (split_on Separator S)"
      using Clean_elems [OF S(1)] S(2) by simp
    then show ?thesis using True S(1) by (simp add: Join_def dirRooted_def dirElems_def)
  next
    case False
    let ?r = "hd T = Separator"
    have ne: "T @ ''/'' @ S \<noteq> ''''" using False by simp
    have hd: "hd (T @ ''/'' @ S) = hd T" using False by simp
    have "split_on Separator (T @ ''/'' @ S) = split_on Separator T @ split_on Separator S"
      using split_on_append [of Separator T S] by simp
    then have "cleanElems ?r [] (split_on Separator (T @ ''/'' @ S))
               = cleanElems ?r [] (split_on Separator T) @ split_on Separator S"
      by (simp add: cleanElems_append cleanElems_proper [OF names])
    then have "Clean (T @ ''/'' @ S)
               = pathText ?r (cleanElems ?r [] (split_on Separator T) @ split_on Separator S)"
      using Clean_elems [OF ne] hd by simp
    then show ?thesis using False by (simp add: Join_def dirRooted_def dirElems_def)
  qed
qed

lemma Rel_base:
  "(if Clean T = ''.'' then '''' else Clean T) = pathText (dirRooted T) (dirElems T)"
proof (cases "T = ''''")
  case True
  then show ?thesis by (simp add: Clean_def dirRooted_def dirElems_def pathText_def)
next
  case False
  have c: "cleaned (dirRooted T) (dirElems T)" by (rule cleaned_dirElems)
  show ?thesis
  proof (cases "hd T \<noteq> Separator \<and> dirElems T = []")
    case True
    then have h: "(hd T = Separator) = False" and d0: "dirElems T = []" by simp_all
    have d: "cleanElems False [] (split_on Separator T) = []"
      using d0 False by (simp add: dirElems_def h)
    have "Clean T = ''.''"
      using Clean_elems [OF False] d by (simp add: h)
    then show ?thesis
      using False True by (simp add: dirRooted_def pathText_def)
  next
    case nd: False
    then have "Clean T = pathText (dirRooted T) (dirElems T)"
      using False Clean_elems [OF False] by (auto simp: dirRooted_def dirElems_def)
    then show ?thesis using pathText_not_dot [OF c] by simp
  qed
qed

text \<open>The path of what was joined onto a directory, relative to that directory, is
  what was joined.\<close>

lemma Rel_Join:
  assumes names: "list_all properName (split_on Separator S)"
  shows "Rel T (Join T S) = Inr S"
proof -
  let ?r = "dirRooted T" and ?D = "dirElems T" and ?Ss = "split_on Separator S"
  have c: "cleaned ?r ?D" by (rule cleaned_dirElems)
  have c2: "cleaned ?r (?D @ ?Ss)"
    by (rule cleaned_append_names [OF c names split_on_slash_free])
  have ne2: "?D @ ?Ss \<noteq> []" by simp
  have targ: "Clean (Join T S) = pathText ?r (?D @ ?Ss)"
    using Join_names [OF names] Clean_pathText [OF c2] by simp
  have base: "(if Clean T = ''.'' then '''' else Clean T) = pathText ?r ?D"
    by (rule Rel_base)
  have el: "pathElems (pathText ?r (?D @ ?Ss)) = pathElems (pathText ?r ?D) @ ?Ss"
    using pathElems_pathText [OF c] pathElems_pathText [OF c2] by simp
  have neq: "Clean (Join T S) \<noteq> Clean T"
  proof
    assume eq: "Clean (Join T S) = Clean T"
    with targ pathText_not_dot [OF c2] have "Clean T \<noteq> ''.''" by simp
    with base eq targ have "pathText ?r (?D @ ?Ss) = pathText ?r ?D" by simp
    with el show False by simp
  qed
  have sl1: "(pathText ?r ?D \<noteq> '''' \<and> hd (pathText ?r ?D) = Separator) = ?r"
    by (rule pathText_facts(1) [OF c])
  have sl2: "(pathText ?r (?D @ ?Ss) \<noteq> '''' \<and> hd (pathText ?r (?D @ ?Ss)) = Separator) = ?r"
    by (rule pathText_facts(1) [OF c2])
  have strip: "stripCommon (pathElems (pathText ?r ?D)) (pathElems (pathText ?r (?D @ ?Ss)))
               = ([], ?Ss)"
    using el stripCommon_prefix by simp
  have nd: "(if pathText ?r (?D @ ?Ss) = ''.'' then '''' else pathText ?r (?D @ ?Ss))
              = pathText ?r (?D @ ?Ss)"
    using pathText_not_dot [OF c2] by simp
  have "Rel T (Join T S) = Inr (join_with ''/'' ?Ss)"
    unfolding Rel_def Let_def targ base nd
    using neq [unfolded targ] sl1 sl2 strip by simp
  then show ?thesis by simp
qed

lemma split_on_append_no_sep:
  "c \<notin> set t \<Longrightarrow>
   split_on c (s @ t) = butlast (split_on c s) @ [last (split_on c s) @ t]"
proof (induction s)
  case Nil
  then show ?case by (simp add: split_on_no_sep)
next
  case (Cons x xs)
  obtain p ps where sp: "split_on c xs = p # ps"
    by (cases "split_on c xs") auto
  show ?case
  proof (cases "x = c")
    case True
    with Cons sp show ?thesis by simp
  next
    case False
    show ?thesis
    proof (cases ps)
      case Nil
      with Cons False sp show ?thesis by simp
    next
      case (Cons q qs)
      with Cons.IH [OF Cons.prems] False sp show ?thesis by simp
    qed
  qed
qed

lemma TrimPrefix_append: "TrimPrefix (p @ s) p = s"
  by (simp add: TrimPrefix_def HasPrefix_def)

lemma TrimSuffix_append: "TrimSuffix (s @ p) p = s"
  by (simp add: TrimSuffix_def HasSuffix_def)

lemma ReplaceAll_same: "ReplaceAll s c c = s"
  by (simp add: ReplaceAll_def cong: map_cong)

lemma yaml_names:
  assumes "list_all properName (butlast (split_on Separator suffix))"
  shows "list_all properName (split_on Separator (suffix @ ''.yaml''))"
proof -
  have "split_on Separator (suffix @ ''.yaml'')
        = butlast (split_on Separator suffix) @ [last (split_on Separator suffix) @ ''.yaml'']"
    by (rule split_on_append_no_sep) simp
  moreover have "properName (last (split_on Separator suffix) @ ''.yaml'')"
    by (cases "last (split_on Separator suffix)") (auto simp: properName_def)
  ultimately show ?thesis using assms by simp
qed

section \<open>Facts about hunks\<close>

lemma isContext_simps [simp]:
  "isContext (CHR '' '' # x)" "\<not> isContext (CHR ''-'' # x)" "\<not> isContext (CHR ''+'' # x)"
  "isRemoved (CHR ''-'' # x)" "isAdded (CHR ''+'' # x)"
  by (simp_all add: isContext_def isRemoved_def isAdded_def HasPrefix_def)

lemma count_fold:
  "foldl (\<lambda>(oldCount, newCount) line.
            (if HasPrefix line ''-'' \<or> HasPrefix line '' '' then oldCount + 1 else oldCount,
             if HasPrefix line ''+'' \<or> HasPrefix line '' '' then newCount + 1 else newCount))
         (a, b) ls
   = (a + length (filter (\<lambda>l. isRemoved l \<or> isContext l) ls),
      b + length (filter (\<lambda>l. isAdded l \<or> isContext l) ls))"
  by (induction ls arbitrary: a b) (simp_all add: isContext_def isRemoved_def isAdded_def)

text \<open>\<open>writeHunk\<close> appends the text of the hunk.\<close>

lemma writeHunk_render:
  "writeHunk d start e oldLen newLen ls = d @ renderHunk (start, ls)"
  by (simp add: writeHunk_def renderHunk_def count_fold unlines_def)

lemma trailingContext_snoc:
  "trailingContext (ls @ [l]) = (if isContext l then Suc (trailingContext ls) else 0)"
  by (simp add: trailingContext_def)

lemma trailingContext_append_change:
  assumes "ys \<noteq> []" and "\<not> isContext (last ys)"
  shows "trailingContext (xs @ ys) = 0"
proof -
  from assms(1) have "ys = butlast ys @ [last ys]" by simp
  then have "xs @ ys = (xs @ butlast ys) @ [last ys]" by simp
  then have "trailingContext (xs @ ys) = trailingContext ((xs @ butlast ys) @ [last ys])"
    by simp
  then show ?thesis using assms(2) by (simp only: trailingContext_snoc if_False)
qed

lemma leadingContext_append:
  assumes "list_ex (\<lambda>l. \<not> isContext l) xs"
  shows "leadingContext (xs @ ys) = leadingContext xs"
  using assms by (auto simp: leadingContext_def list_ex_iff takeWhile_append1)

lemma leadingContext_context_then_change:
  assumes "list_all isContext xs" and "ys \<noteq> []" and "\<not> isContext (hd ys)"
  shows "leadingContext (xs @ ys) = length xs"
proof -
  from assms(2,3) have "takeWhile isContext ys = []" by (cases ys) auto
  then show ?thesis
    using assms(1) by (simp add: leadingContext_def list_all_iff takeWhile_append2)
qed

text \<open>The lines the code adds where the texts differ are those of the comparison by
  position, and there is at least one.\<close>

lemma changeLines_positional:
  assumes "lineAt el i \<noteq> lineAt nl i"
  shows "changeLines el nl i = positionalChange el nl i"
  using assms by (auto simp: changeLines_def positionalChange_def lineAt_def)

lemma positionalChange_facts:
  assumes "lineAt el i \<noteq> lineAt nl i"
  shows "positionalChange el nl i \<noteq> []"
    and "list_all (\<lambda>l. \<not> isContext l) (positionalChange el nl i)"
    and "list_all (\<lambda>l. isRemoved l \<or> isAdded l \<or> isContext l) (positionalChange el nl i)"
  using assms by (auto simp: positionalChange_def)

lemma positionalChange_same:
  "lineAt el i = lineAt nl i \<Longrightarrow> positionalChange el nl i = []"
  by (simp add: positionalChange_def)

lemma contextBefore_facts:
  "length (contextBefore el i) \<le> 3"
  "list_all isContext (contextBefore el i)"
  "list_all (\<lambda>l. isRemoved l \<or> isAdded l \<or> isContext l) (contextBefore el i)"
proof -
  have "length (filter (\<lambda>j. j < length el) [i - 3 ..< i]) \<le> length [i - 3 ..< i]"
    by (rule length_filter_le)
  then show "length (contextBefore el i) \<le> 3"
    by (simp add: contextBefore_def)
  show "list_all isContext (contextBefore el i)"
    by (simp add: contextBefore_def list_all_iff)
  then show "list_all (\<lambda>l. isRemoved l \<or> isAdded l \<or> isContext l) (contextBefore el i)"
    by (simp add: list_all_iff)
qed

lemma contextBefore_matching:
  assumes "\<forall>j. i - 3 \<le> j \<and> j < i \<longrightarrow> lineAt el j = lineAt nl j"
  shows "list_all (matchingContext el nl) (contextBefore el i)"
proof -
  have "matchingContext el nl l" if "l \<in> set (contextBefore el i)" for l
  proof -
    from that obtain j where j: "i - 3 \<le> j" "j < i" "j < length el"
      and l: "l = CHR '' '' # el ! j"
      by (auto simp: contextBefore_def)
    from j(3) l have "l = CHR '' '' # lineAt el j" by (simp add: lineAt_def)
    moreover from assms j have "lineAt el j = lineAt nl j" by simp
    ultimately show ?thesis unfolding matchingContext_def by blast
  qed
  then show ?thesis by (simp add: list_all_iff)
qed

text \<open>The four ways a round of the loop can go.\<close>

lemma diffStep_open:
  assumes "lineAt el i \<noteq> lineAt nl i" and "\<not> inHunk st"
  shows "diffStep el nl st i
         = st\<lparr>inHunk := True, hunkStart := i - 3,
              hunkLines := contextBefore el i @ positionalChange el nl i\<rparr>"
  using assms by (simp add: diffStep_def Let_def changeLines_positional)

lemma diffStep_extend:
  assumes "lineAt el i \<noteq> lineAt nl i" and "inHunk st"
  shows "diffStep el nl st i = st\<lparr>hunkLines := hunkLines st @ positionalChange el nl i\<rparr>"
  using assms by (simp add: diffStep_def Let_def changeLines_positional)

lemma diffStep_context:
  assumes "lineAt el i = lineAt nl i" and "inHunk st"
  shows "diffStep el nl st i
         = (if 3 \<le> trailingContext (hunkLines st @ [CHR '' '' # lineAt el i])
            then st\<lparr>diff := diff st @ renderHunk (hunkStart st,
                             take (length (hunkLines st @ [CHR '' '' # lineAt el i])
                                     - trailingContext (hunkLines st @ [CHR '' '' # lineAt el i]) + 3)
                                  (hunkLines st @ [CHR '' '' # lineAt el i])),
                    inHunk := False,
                    hunkLines := hunkLines st @ [CHR '' '' # lineAt el i]\<rparr>
            else st\<lparr>hunkLines := hunkLines st @ [CHR '' '' # lineAt el i]\<rparr>)"
  using assms
  by (simp add: diffStep_def Let_def writeHunk_render trailingContext_def
        isContext_def [abs_def])

lemma diffStep_idle:
  assumes "lineAt el i = lineAt nl i" and "\<not> inHunk st"
  shows "diffStep el nl st i = st"
  using assms by (simp add: diffStep_def Let_def)

lemma filter_context_free:
  "list_all (\<lambda>l. \<not> isContext l) xs \<Longrightarrow> filter (\<lambda>l. \<not> isContext l) xs = xs"
  "list_all isContext xs \<Longrightarrow> filter (\<lambda>l. \<not> isContext l) xs = []"
  by (induction xs) auto

lemma change_ends:
  assumes "xs \<noteq> []" and "list_all (\<lambda>l. \<not> isContext l) xs"
  shows "\<not> isContext (hd xs)" and "\<not> isContext (last xs)" and "list_ex (\<lambda>l. \<not> isContext l) xs"
proof -
  from assms show "\<not> isContext (hd xs)" by (cases xs) auto
  from assms show "\<not> isContext (last xs)" by (simp add: list_all_iff)
  from assms show "list_ex (\<lambda>l. \<not> isContext l) xs" by (cases xs) auto
qed

text \<open>Each way keeps what holds of the loop.\<close>

lemma hunksInv_open:
  assumes inv: "hunksInv el nl header i st hs"
    and differ: "lineAt el i \<noteq> lineAt nl i" and closed: "\<not> inHunk st"
  shows "hunksInv el nl header (Suc i) (diffStep el nl st i) hs"
proof -
  let ?ctx = "contextBefore el i" and ?chg = "positionalChange el nl i"
  note chg = positionalChange_facts [OF differ]
  note ends = change_ends [OF chg(1,2)]
  note ctx = contextBefore_facts [of el i]
  from inv closed have d: "diff st = header @ concat (map renderHunk hs)"
    and wf: "list_all (wellFormedHunk el nl) hs"
    and ch: "filter (\<lambda>l. \<not> isContext l) (concat (map snd hs))
             = concat (map (positionalChange el nl) [0 ..< i])"
    and near: "\<forall>j. i - 3 \<le> j \<and> j < i \<longrightarrow> lineAt el j = lineAt nl j"
    by (simp_all add: hunksInv_def)
  have st': "diffStep el nl st i
             = st\<lparr>inHunk := True, hunkStart := i - 3, hunkLines := ?ctx @ ?chg\<rparr>"
    by (rule diffStep_open [OF differ closed])
  have filt: "filter (\<lambda>l. \<not> isContext l) (concat (map snd hs) @ ?ctx @ ?chg)
              = concat (map (positionalChange el nl) [0 ..< Suc i])"
    using ch filter_context_free(1) [OF chg(2)] filter_context_free(2) [OF ctx(2)]
    by simp
  have "list_all (matchingContext el nl) ?ctx"
    by (rule contextBefore_matching [OF near])
  then have m: "list_all (\<lambda>l. isContext l \<longrightarrow> matchingContext el nl l) (?ctx @ ?chg)"
    using chg(2) by (auto simp: list_all_iff)
  have "openHunk el nl (Suc i) (?ctx @ ?chg)"
    unfolding openHunk_def
    using ctx chg(3) ends(3) m
      leadingContext_context_then_change [OF ctx(2) chg(1) ends(1)]
      trailingContext_append_change [OF chg(1) ends(2), of ?ctx]
    by auto
  then show ?thesis
    unfolding hunksInv_def st' using d wf filt by simp
qed

lemma hunksInv_extend:
  assumes inv: "hunksInv el nl header i st hs"
    and differ: "lineAt el i \<noteq> lineAt nl i" and opened: "inHunk st"
  shows "hunksInv el nl header (Suc i) (diffStep el nl st i) hs"
proof -
  let ?chg = "positionalChange el nl i"
  note chg = positionalChange_facts [OF differ]
  note ends = change_ends [OF chg(1,2)]
  from inv opened have d: "diff st = header @ concat (map renderHunk hs)"
    and wf: "list_all (wellFormedHunk el nl) hs"
    and ch: "filter (\<lambda>l. \<not> isContext l) (concat (map snd hs) @ hunkLines st)
             = concat (map (positionalChange el nl) [0 ..< i])"
    and op: "openHunk el nl i (hunkLines st)"
    by (simp_all add: hunksInv_def)
  have st': "diffStep el nl st i = st\<lparr>hunkLines := hunkLines st @ ?chg\<rparr>"
    by (rule diffStep_extend [OF differ opened])
  have filt: "filter (\<lambda>l. \<not> isContext l) (concat (map snd hs) @ hunkLines st @ ?chg)
              = concat (map (positionalChange el nl) [0 ..< Suc i])"
    using ch filter_context_free(1) [OF chg(2)] by simp
  from op have ex: "list_ex (\<lambda>l. \<not> isContext l) (hunkLines st)"
    by (simp add: openHunk_def)
  have m: "list_all (\<lambda>l. isContext l \<longrightarrow> matchingContext el nl l) (hunkLines st @ ?chg)"
    using op chg(2) by (auto simp: openHunk_def list_all_iff)
  have "openHunk el nl (Suc i) (hunkLines st @ ?chg)"
    unfolding openHunk_def
    using op chg(3) ex m leadingContext_append [OF ex, of ?chg]
      trailingContext_append_change [OF chg(1) ends(2), of "hunkLines st"]
    by (auto simp: openHunk_def)
  then show ?thesis
    unfolding hunksInv_def st' using d wf filt opened by simp
qed

lemma hunksInv_idle:
  assumes inv: "hunksInv el nl header i st hs"
    and same: "lineAt el i = lineAt nl i" and closed: "\<not> inHunk st"
  shows "hunksInv el nl header (Suc i) (diffStep el nl st i) hs"
proof -
  from inv closed have near: "\<forall>j. i - 3 \<le> j \<and> j < i \<longrightarrow> lineAt el j = lineAt nl j"
    by (simp add: hunksInv_def)
  have "lineAt el j = lineAt nl j" if "Suc i - 3 \<le> j" "j < Suc i" for j
  proof (cases "j = i")
    case True
    with same show ?thesis by simp
  next
    case False
    with that near show ?thesis by simp
  qed
  then show ?thesis
    using inv closed positionalChange_same [OF same]
    by (simp add: hunksInv_def diffStep_idle [OF same closed])
qed

lemma trailingContext_le_length: "trailingContext ls \<le> length ls"
  unfolding trailingContext_def
  using length_takeWhile_le [of isContext "rev ls"] by simp

lemma hunksInv_context:
  assumes inv: "hunksInv el nl header i st hs"
    and same: "lineAt el i = lineAt nl i" and opened: "inHunk st"
  shows "\<exists>hs'. hunksInv el nl header (Suc i) (diffStep el nl st i) hs'"
proof -
  let ?c = "CHR '' '' # lineAt el i"
  let ?L = "hunkLines st @ [?c]"
  from inv opened have d: "diff st = header @ concat (map renderHunk hs)"
    and wf: "list_all (wellFormedHunk el nl) hs"
    and ch: "filter (\<lambda>l. \<not> isContext l) (concat (map snd hs) @ hunkLines st)
             = concat (map (positionalChange el nl) [0 ..< i])"
    and op: "openHunk el nl i (hunkLines st)"
    by (simp_all add: hunksInv_def)
  from op have mk: "list_all (\<lambda>l. isRemoved l \<or> isAdded l \<or> isContext l) (hunkLines st)"
    and ex: "list_ex (\<lambda>l. \<not> isContext l) (hunkLines st)"
    and lead: "leadingContext (hunkLines st) \<le> 3"
    and trail: "trailingContext (hunkLines st) < 3"
    and mt: "list_all (\<lambda>l. isContext l \<longrightarrow> matchingContext el nl l) (hunkLines st)"
    and near: "\<forall>j. i - trailingContext (hunkLines st) \<le> j \<and> j < i
                 \<longrightarrow> lineAt el j = lineAt nl j"
    by (simp_all add: openHunk_def)
  have tc: "trailingContext ?L = Suc (trailingContext (hunkLines st))"
    by (simp add: trailingContext_snoc)
  have mc: "matchingContext el nl ?c"
    unfolding matchingContext_def using same by blast
  have mk': "list_all (\<lambda>l. isRemoved l \<or> isAdded l \<or> isContext l) ?L"
    using mk by simp
  have ex': "list_ex (\<lambda>l. \<not> isContext l) ?L"
    using ex by simp
  have lead': "leadingContext ?L \<le> 3"
    using lead leadingContext_append [OF ex, of "[?c]"] by simp
  have mt': "list_all (\<lambda>l. isContext l \<longrightarrow> matchingContext el nl l) ?L"
    using mt mc by simp
  have chg: "positionalChange el nl i = []"
    by (rule positionalChange_same [OF same])
  have near': "lineAt el j = lineAt nl j"
    if "Suc i - trailingContext ?L \<le> j" "j < Suc i" for j
  proof (cases "j = i")
    case True
    with same show ?thesis by simp
  next
    case False
    with that near tc show ?thesis by simp
  qed
  then have nearA: "\<forall>j. Suc i - trailingContext ?L \<le> j \<and> j < Suc i
                      \<longrightarrow> lineAt el j = lineAt nl j"
    by blast
  note step = diffStep_context [OF same opened]
  show ?thesis
  proof (cases "3 \<le> trailingContext ?L")
    case True
    with tc trail have t3: "trailingContext ?L = 3" by simp
    have "3 \<le> length ?L"
      using trailingContext_le_length [of ?L] t3 by simp
    then have tk: "take (length ?L - trailingContext ?L + 3) ?L = ?L"
      using t3 by simp
    have st': "diffStep el nl st i
               = st\<lparr>diff := diff st @ renderHunk (hunkStart st, ?L),
                    inHunk := False, hunkLines := ?L\<rparr>"
      using step True tk by (simp only: if_True)
    have wf': "wellFormedHunk el nl (hunkStart st, ?L)"
      unfolding wellFormedHunk_def using mk' ex' lead' mt' t3 by simp
    have filt: "filter (\<lambda>l. \<not> isContext l)
                  (concat (map snd (hs @ [(hunkStart st, ?L)])))
                = concat (map (positionalChange el nl) [0 ..< Suc i])"
      using ch chg by simp
    have near3: "\<forall>j. Suc i - 3 \<le> j \<and> j < Suc i \<longrightarrow> lineAt el j = lineAt nl j"
      using nearA unfolding t3 .
    have wfs: "list_all (wellFormedHunk el nl) (hs @ [(hunkStart st, ?L)])"
      using wf wf' by simp
    have d': "diff st @ renderHunk (hunkStart st, ?L)
              = header @ concat (map renderHunk (hs @ [(hunkStart st, ?L)]))"
      using d by simp
    have "hunksInv el nl header (Suc i)
            (st\<lparr>diff := diff st @ renderHunk (hunkStart st, ?L),
                inHunk := False, hunkLines := ?L\<rparr>) (hs @ [(hunkStart st, ?L)])"
      unfolding hunksInv_def
    proof (intro conjI impI)
      show "diff (st\<lparr>diff := diff st @ renderHunk (hunkStart st, ?L),
                inHunk := False, hunkLines := ?L\<rparr>)
            = header @ concat (map renderHunk (hs @ [(hunkStart st, ?L)]))"
        using d' by simp
      show "list_all (wellFormedHunk el nl) (hs @ [(hunkStart st, ?L)])"
        by (rule wfs)
      show "filter (\<lambda>l. \<not> isContext l)
              (concat (map snd (hs @ [(hunkStart st, ?L)]))
               @ (if inHunk (st\<lparr>diff := diff st @ renderHunk (hunkStart st, ?L),
                                inHunk := False, hunkLines := ?L\<rparr>)
                  then hunkLines (st\<lparr>diff := diff st @ renderHunk (hunkStart st, ?L),
                                inHunk := False, hunkLines := ?L\<rparr>) else []))
            = concat (map (positionalChange el nl) [0 ..< Suc i])"
        using filt by simp
      show "\<forall>j. Suc i - 3 \<le> j \<and> j < Suc i \<longrightarrow> lineAt el j = lineAt nl j"
        by (rule near3)
      show "openHunk el nl (Suc i)
              (hunkLines (st\<lparr>diff := diff st @ renderHunk (hunkStart st, ?L),
                             inHunk := False, hunkLines := ?L\<rparr>))"
        if "inHunk (st\<lparr>diff := diff st @ renderHunk (hunkStart st, ?L),
                       inHunk := False, hunkLines := ?L\<rparr>)"
        using that by simp
    qed
    then have "hunksInv el nl header (Suc i) (diffStep el nl st i) (hs @ [(hunkStart st, ?L)])"
      unfolding st' .
    then show ?thesis ..
  next
    case False
    then have st': "diffStep el nl st i = st\<lparr>hunkLines := ?L\<rparr>"
      using step by (simp only: if_False)
    have filt: "filter (\<lambda>l. \<not> isContext l) (concat (map snd hs) @ ?L)
                = concat (map (positionalChange el nl) [0 ..< Suc i])"
      using ch chg by simp
    have tl: "trailingContext ?L < 3"
      using False by simp
    have "openHunk el nl (Suc i) ?L"
      unfolding openHunk_def by (intro conjI mk' ex' lead' mt' tl nearA)
    then have "hunksInv el nl header (Suc i) (diffStep el nl st i) hs"
      unfolding hunksInv_def st' using d wf filt opened by simp
    then show ?thesis ..
  qed
qed

text \<open>So it holds after every number of rounds.\<close>

lemma hunksInv_step:
  assumes "hunksInv el nl header i st hs"
  shows "\<exists>hs'. hunksInv el nl header (Suc i) (diffStep el nl st i) hs'"
proof (cases "lineAt el i = lineAt nl i")
  case True
  show ?thesis
  proof (cases "inHunk st")
    case True
    from hunksInv_context [OF assms \<open>lineAt el i = lineAt nl i\<close> True] show ?thesis .
  next
    case False
    from hunksInv_idle [OF assms \<open>lineAt el i = lineAt nl i\<close> False] show ?thesis ..
  qed
next
  case False
  show ?thesis
  proof (cases "inHunk st")
    case True
    from hunksInv_extend [OF assms False True] show ?thesis ..
  next
    case f: False
    from hunksInv_open [OF assms False f] show ?thesis ..
  qed
qed

lemma hunksInv_loop:
  "\<exists>hs. hunksInv el nl header n
          (foldl (diffStep el nl)
             \<lparr>diff = header, inHunk = False, hunkStart = 0, hunkLines = []\<rparr> [0 ..< n]) hs"
proof (induction n)
  case 0
  have e: "foldl (diffStep el nl)
             \<lparr>diff = header, inHunk = False, hunkStart = 0, hunkLines = []\<rparr> [0 ..< 0]
           = \<lparr>diff = header, inHunk = False, hunkStart = 0, hunkLines = []\<rparr>"
    by simp
  have "hunksInv el nl header 0
          \<lparr>diff = header, inHunk = False, hunkStart = 0, hunkLines = []\<rparr> []"
    by (simp add: hunksInv_def)
  then show ?case unfolding e ..
next
  case (Suc n)
  then obtain hs where inv: "hunksInv el nl header n
          (foldl (diffStep el nl)
             \<lparr>diff = header, inHunk = False, hunkStart = 0, hunkLines = []\<rparr> [0 ..< n]) hs" ..
  have e: "foldl (diffStep el nl)
             \<lparr>diff = header, inHunk = False, hunkStart = 0, hunkLines = []\<rparr> [0 ..< Suc n]
           = diffStep el nl
               (foldl (diffStep el nl)
                  \<lparr>diff = header, inHunk = False, hunkStart = 0, hunkLines = []\<rparr> [0 ..< n]) n"
    by simp
  show ?case unfolding e by (rule hunksInv_step [OF inv])
qed

text \<open>The diff of two different texts is its header and a list of well-formed hunks
  whose changes are, in order, the changes of the comparison by position.\<close>

lemma generateUnifiedDiff_hunks:
  assumes "existing \<noteq> new"
  shows "\<exists>hs. generateUnifiedDiff existing new filename
                = diffHeader existing new filename @ concat (map renderHunk hs)
              \<and> list_all (wellFormedHunk (split_on newline existing) (split_on newline new)) hs
              \<and> filter (\<lambda>l. \<not> isContext l) (concat (map snd hs))
                = concat (map (positionalChange (split_on newline existing)
                                                (split_on newline new))
                           [0 ..< max (length (split_on newline existing))
                                      (length (split_on newline new))])"
proof -
  let ?el = "split_on newline existing" and ?nl = "split_on newline new"
  let ?h = "diffHeader existing new filename"
  let ?n = "max (length ?el) (length ?nl)"
  let ?st = "foldl (diffStep ?el ?nl)
               \<lparr>diff = ?h, inHunk = False, hunkStart = 0, hunkLines = []\<rparr> [0 ..< ?n]"
  obtain hs where inv: "hunksInv ?el ?nl ?h ?n ?st hs"
    using hunksInv_loop [of ?el ?nl ?h ?n] ..
  have gen: "generateUnifiedDiff existing new filename
             = (if inHunk ?st then diff ?st @ renderHunk (hunkStart ?st, hunkLines ?st)
                else diff ?st)"
    using assms by (simp add: generateUnifiedDiff_def Let_def writeHunk_render)
  show ?thesis
  proof (cases "inHunk ?st")
    case True
    with inv have op: "openHunk ?el ?nl ?n (hunkLines ?st)"
      and d: "diff ?st = ?h @ concat (map renderHunk hs)"
      and wf: "list_all (wellFormedHunk ?el ?nl) hs"
      and ch: "filter (\<lambda>l. \<not> isContext l) (concat (map snd hs) @ hunkLines ?st)
               = concat (map (positionalChange ?el ?nl) [0 ..< ?n])"
      by (simp_all add: hunksInv_def)
    from op have "wellFormedHunk ?el ?nl (hunkStart ?st, hunkLines ?st)"
      by (simp add: openHunk_def wellFormedHunk_def)
    with wf have wf': "list_all (wellFormedHunk ?el ?nl) (hs @ [(hunkStart ?st, hunkLines ?st)])"
      by simp
    have "generateUnifiedDiff existing new filename
          = ?h @ concat (map renderHunk (hs @ [(hunkStart ?st, hunkLines ?st)]))"
      using gen True d by simp
    moreover have "filter (\<lambda>l. \<not> isContext l)
                     (concat (map snd (hs @ [(hunkStart ?st, hunkLines ?st)])))
                   = concat (map (positionalChange ?el ?nl) [0 ..< ?n])"
      using ch by simp
    ultimately show ?thesis using wf' by blast
  next
    case False
    with inv have d: "diff ?st = ?h @ concat (map renderHunk hs)"
      and wf: "list_all (wellFormedHunk ?el ?nl) hs"
      and ch: "filter (\<lambda>l. \<not> isContext l) (concat (map snd hs))
               = concat (map (positionalChange ?el ?nl) [0 ..< ?n])"
      by (simp_all add: hunksInv_def)
    have "generateUnifiedDiff existing new filename = ?h @ concat (map renderHunk hs)"
      using gen False d by simp
    with wf ch show ?thesis by blast
  qed
qed

lemma marked_lines:
  assumes "list_all (\<lambda>l. isRemoved l \<or> isAdded l \<or> isContext l) ls"
  shows "filter (\<lambda>l. isRemoved l \<or> isAdded l) ls = filter (\<lambda>l. \<not> isContext l) ls"
  using assms
  by (intro filter_cong refl)
     (auto simp: list_all_iff isContext_def isRemoved_def isAdded_def HasPrefix_def)

lemma wellFormed_marked:
  assumes "list_all (wellFormedHunk el nl) hs"
  shows "filter (\<lambda>l. isRemoved l \<or> isAdded l) (concat (map snd hs))
         = filter (\<lambda>l. \<not> isContext l) (concat (map snd hs))"
proof (rule marked_lines)
  show "list_all (\<lambda>l. isRemoved l \<or> isAdded l \<or> isContext l) (concat (map snd hs))"
    using assms by (auto simp: list_all_iff wellFormedHunk_def)
qed

text \<open>When the texts differ on one line only, the changes of the comparison by
  position are the changes of that line.\<close>

lemma concat_single:
  assumes "i < n" and "\<forall>j. j \<noteq> i \<longrightarrow> f j = []"
  shows "concat (map f [0 ..< n]) = f i"
proof -
  have "[0 ..< n] = [0 ..< i] @ [i ..< n]"
    using assms(1) upt_add_eq_append [of 0 i "n - i"] by simp
  also have "[i ..< n] = i # [Suc i ..< n]"
    using assms(1) by (rule upt_conv_Cons)
  finally have sp: "[0 ..< n] = [0 ..< i] @ i # [Suc i ..< n]" .
  have a: "concat (map f [0 ..< i]) = []"
    using assms(2) by (auto simp: concat_eq_Nil_conv)
  have b: "concat (map f [Suc i ..< n]) = []"
    using assms(2) by (auto simp: concat_eq_Nil_conv)
  have "concat (map f [0 ..< n])
        = concat (map f [0 ..< i]) @ f i @ concat (map f [Suc i ..< n])"
    unfolding sp by simp
  then show ?thesis unfolding a b by simp
qed

lemma positionalChange_single:
  assumes "\<forall>j. j \<noteq> i \<longrightarrow> lineAt el j = lineAt nl j"
    and "lineAt el i \<noteq> lineAt nl i"
  shows "concat (map (positionalChange el nl) [0 ..< max (length el) (length nl)])
         = positionalChange el nl i"
proof (rule concat_single)
  show "i < max (length el) (length nl)"
    using assms(2) by (auto simp: lineAt_def split: if_splits)
  show "\<forall>j. j \<noteq> i \<longrightarrow> positionalChange el nl j = []"
    using assms(1) by (simp add: positionalChange_same)
qed

subsection \<open>Facts about the short hash\<close>

lemma hexOf_digits:
  "0 \<le> n \<Longrightarrow> set (hexOf n) \<subseteq> set ''0123456789abcdef''"
proof (induction n rule: hexOf.induct)
  case (1 n)
  show ?case
  proof (cases "n < 16")
    case True
    with 1(2) have "nat n < 16" by simp
    then have "''0123456789abcdef'' ! nat n \<in> set ''0123456789abcdef''"
      by (intro nth_mem) simp
    then show ?thesis using True by (subst hexOf.simps) simp
  next
    case False
    then have "nat (n mod 16) < 16" by simp
    then have "''0123456789abcdef'' ! nat (n mod 16) \<in> set ''0123456789abcdef''"
      by (intro nth_mem) simp
    moreover have "set (hexOf (n div 16)) \<subseteq> set ''0123456789abcdef''"
      using 1(1) [OF False] False by simp
    ultimately show ?thesis using False by (subst hexOf.simps) simp
  qed
qed

lemma hexOf_length:
  "0 \<le> n \<Longrightarrow> n < 16 ^ k \<Longrightarrow> 0 < k \<Longrightarrow> length (hexOf n) \<le> k"
proof (induction n arbitrary: k rule: hexOf.induct)
  case (1 n)
  show ?case
  proof (cases "n < 16")
    case True
    then show ?thesis using 1(4) by (subst hexOf.simps) simp
  next
    case False
    obtain k' where k: "k = Suc k'" using 1(4) by (cases k) auto
    have "k' > 0"
    proof (rule ccontr)
      assume "\<not> k' > 0"
      with k 1(3) False show False by simp
    qed
    moreover have "n div 16 < 16 ^ k'"
      using 1(3) k by simp
    moreover have "0 \<le> n div 16" using 1(2) by simp
    ultimately have "length (hexOf (n div 16)) \<le> k'"
      using 1(1) [OF False] by simp
    then show ?thesis using False k by (subst hexOf.simps) simp
  qed
qed

lemma sint_abs_nonneg:
  fixes h :: "64 word"
  assumes "h \<noteq> 2 ^ 63"
  shows "0 \<le> sint (if sint h < 0 then - h else h)"
proof (cases "sint h < 0")
  case False
  then show ?thesis by simp
next
  case True
  have "sint h \<noteq> - (2 ^ 63)"
  proof
    assume "sint h = - (2 ^ 63)"
    then have "word_of_int (sint h) = (word_of_int (- (2 ^ 63)) :: 64 word)" by simp
    then have "h = 2 ^ 63" by simp
    with assms show False by simp
  qed
  moreover have "- (2 ^ 63) \<le> sint h" using sint_ge [of h] by simp
  ultimately have "- (2 ^ 63) \<le> - sint h" and "- sint h < 2 ^ 63" using True by simp_all
  then have "signed_take_bit 63 (- sint h) = - sint h"
    by (rule signed_take_bit_int_eq_self)
  then have "sint (- h) = - sint h" by (simp add: sint_word_minus)
  then show ?thesis using True by simp
qed

text \<open>Unless the hash is the least integer, the short hash is seven hexadecimal
  digits.\<close>

lemma generateShortHash_digits:
  assumes "foldl (\<lambda>hash c. hash * 31 + of_nat c) (0 :: 64 word)
             (decodeRunes (map of_char content)) \<noteq> 2 ^ 63"
  shows "length (generateShortHash content) = 7
         \<and> set (generateShortHash content) \<subseteq> set ''0123456789abcdef''"
proof -
  let ?h = "foldl (\<lambda>hash c. hash * 31 + of_nat c) (0 :: 64 word)
              (decodeRunes (map of_char content))"
  let ?a = "sint (if sint ?h < 0 then - ?h else ?h)"
  let ?v = "go_rem ?a 0xfffffff"
  have a: "0 \<le> ?a" by (rule sint_abs_nonneg [OF assms])
  then have v: "?v = ?a mod 0xfffffff"
    by (cases "?a = 0") (simp_all add: go_rem_def)
  then have v0: "0 \<le> ?v" and v1: "?v < 16 ^ 7" by simp_all
  have g: "generateShortHash content = zeroPad 7 (hexOf ?v)"
    using v0 by (simp add: generateShortHash_def Let_def sprintf_07x_def)
  have "length (hexOf ?v) \<le> 7" by (rule hexOf_length [OF v0 v1]) simp
  then have "length (zeroPad 7 (hexOf ?v)) = 7" by (simp add: zeroPad_def)
  moreover have "set (zeroPad 7 (hexOf ?v)) \<subseteq> set ''0123456789abcdef''"
    using hexOf_digits [OF v0] by (auto simp: zeroPad_def)
  ultimately show ?thesis using g by simp
qed

section \<open>The claims\<close>

subsection \<open>C1: from a remote path to a file and back\<close>

text \<open>
  C1, as claimed: for every non-empty suffix below the base path, the remote path of
  the file that the secret was written to is the path of the secret. The file path
  goes through \<^verbatim>\<open>filepath.Join\<close>, which cleans it, so a suffix with an empty segment
  comes back without it: the secret \<open>kv/metadata/team//db\<close> is written to
  \<open>out/team/db.yaml\<close>, whose remote path is \<open>kv/metadata/team/db\<close>.
\<close>

theorem path_round_trip_counterexample:
  "secretFilePath ''kv/metadata/team//db'' ''kv/metadata'' ''out'' = Inr ''out/team/db.yaml''
   \<and> fileVaultPath ''kv'' '''' ''out'' ''out/team/db.yaml'' = Inr ''kv/metadata/team/db''
   \<and> ''kv/metadata/team/db'' \<noteq> ''kv/metadata/team//db''"
  by code_simp

text \<open>
  C1, amended. Let the base path consist of an engine name, \<open>metadata\<close> and a sub-path
  that is absent or not empty, and let every segment of the suffix but the last be a
  proper name (not empty, not \<open>.\<close> and not \<open>..\<close>), the suffix itself not being empty.
  Then, for every base directory, the secret \<open>base/suffix\<close> is written to the file
  \<open>suffix.yaml\<close> joined onto the directory that push derives from the same arguments,
  and the remote path that push computes for that file is \<open>base/suffix\<close> again.
\<close>

theorem path_round_trip:
  assumes form: "split_on slash metadataPath = engine # ''metadata'' # sub"
    and subpath: "sub \<noteq> ['''']"
    and names: "list_all properName (butlast (split_on slash suffix))"
    and nonempty: "suffix \<noteq> ''''"
    and subPath: "subPath = (if sub = [] then '''' else join_with ''/'' sub)"
    and baseDir: "baseDir = (if sub = [] then dir else Join dir subPath)"
  shows "secretFilePath (metadataPath @ ''/'' @ suffix) metadataPath dir
           = Inr (Join baseDir (suffix @ ''.yaml''))
         \<and> fileVaultPath engine subPath baseDir (Join baseDir (suffix @ ''.yaml''))
           = Inr (metadataPath @ ''/'' @ suffix)"
proof
  have "TrimPrefix (TrimPrefix (metadataPath @ ''/'' @ suffix) metadataPath) ''/'' = suffix"
    using TrimPrefix_append [of metadataPath "''/'' @ suffix"] TrimPrefix_append [of "''/''" suffix]
    by simp
  then show "secretFilePath (metadataPath @ ''/'' @ suffix) metadataPath dir
               = Inr (Join baseDir (suffix @ ''.yaml''))"
    using form nonempty subPath baseDir by (simp add: secretFilePath_def Let_def)
next
  have rel: "Rel baseDir (Join baseDir (suffix @ ''.yaml'')) = Inr (suffix @ ''.yaml'')"
    by (rule Rel_Join [OF yaml_names [OF names]])
  have meta: "metadataPath = join_with ''/'' (engine # ''metadata'' # sub)"
    using join_split [of slash metadataPath] form by simp
  have path: "metadataPath = (if sub = [] then engine @ ''/metadata''
                              else engine @ ''/metadata/'' @ subPath)"
    using meta subPath by (cases sub) (simp_all add: join_with_Cons)
  have empty: "subPath = '''' \<longleftrightarrow> sub = []"
  proof (cases sub)
    case Nil
    with subPath show ?thesis by simp
  next
    case (Cons a as)
    show ?thesis
    proof (cases as)
      case Nil
      with Cons subpath subPath show ?thesis by simp
    next
      case (Cons b bs)
      with \<open>sub = a # as\<close> subPath show ?thesis by simp
    qed
  qed
  show "fileVaultPath engine subPath baseDir (Join baseDir (suffix @ ''.yaml''))
          = Inr (metadataPath @ ''/'' @ suffix)"
    using rel path empty
    by (simp add: fileVaultPath_def TrimSuffix_append ReplaceAll_same)
qed

theorem path_round_trip_witness:
  "split_on slash ''kv/metadata/app'' = ''kv'' # ''metadata'' # [''app'']
   \<and> list_all properName (butlast (split_on slash ''sub/metadata/x''))
   \<and> secretFilePath ''kv/metadata/app/sub/metadata/x'' ''kv/metadata/app'' ''out''
       = Inr ''out/app/sub/metadata/x.yaml''
   \<and> fileVaultPath ''kv'' ''app'' ''out/app'' ''out/app/sub/metadata/x.yaml''
       = Inr ''kv/metadata/app/sub/metadata/x''"
proof -
  have 1: "split_on slash ''kv/metadata/app'' = ''kv'' # ''metadata'' # [''app'']"
    by simp
  have 2: "[''app''] \<noteq> ['''']"
    by simp
  have 3: "list_all properName (butlast (split_on slash ''sub/metadata/x''))"
    by code_simp
  have 4: "''sub/metadata/x'' \<noteq> ''''"
    by simp
  have 5: "''app'' = (if [''app''] = [] then '''' else join_with ''/'' [''app''])"
    by simp
  have 6: "''out/app'' = (if [''app''] = [] then ''out'' else Join ''out'' ''app'')"
    by code_simp
  have 7: "Join ''out/app'' (''sub/metadata/x'' @ ''.yaml'') = ''out/app/sub/metadata/x.yaml''"
    by code_simp
  from path_round_trip [OF 1 2 3 4 5 6] 7 1 3 show ?thesis
    by simp
qed

subsection \<open>C2: a payload diffed against itself\<close>

text \<open>
  C2. For every text \<open>x\<close> and label, \<open>generateUnifiedDiff x x label\<close> is the empty text,
  the value the program reads as "no changes". On the dry-run path, when the fetch of
  the existing secret returns the payload \<open>X\<close> that is being pushed, \<open>showDryRunDiff\<close>
  returns no error and adds to the trace the debug line and the request of
  \<open>GetSecret\<close> and nothing else: it does not call \<open>outputDiff\<close>.
\<close>

theorem diff_idempotence:
  "generateUnifiedDiff x x label = '''' \<and>
   (httpGet v (toDataPath label) = Inr X \<longrightarrow>
      showDryRunDiff v label X tr
        = (None, tr @ [PrintDebugGet label (toDataPath label), ReqGet (toDataPath label)]))"
  by (simp add: generateUnifiedDiff_def showDryRunDiff_def GetSecret_def Let_def)

theorem diff_idempotence_witness:
  "httpGet (offlineEnv\<lparr>httpGet := \<lambda>p. Inr ''a: 1\<newline>''\<rparr>) (toDataPath ''kv/metadata/app/db'')
     = Inr ''a: 1\<newline>''
   \<and> showDryRunDiff (offlineEnv\<lparr>httpGet := \<lambda>p. Inr ''a: 1\<newline>''\<rparr>)
         ''kv/metadata/app/db'' ''a: 1\<newline>'' []
       = (None, [PrintDebugGet ''kv/metadata/app/db'' ''kv/data/app/db'',
                 ReqGet ''kv/data/app/db''])"
  using diff_idempotence [of "''a: 1\<newline>''" "''kv/metadata/app/db''"
      "offlineEnv\<lparr>httpGet := \<lambda>p. Inr ''a: 1\<newline>''\<rparr>" "''a: 1\<newline>''" "[]"]
  by (simp add: toDataPath_def)

subsection \<open>C3: what fails a pull\<close>



subsection \<open>C4: the conversion of GetSecret and PutSecret\<close>

text \<open>
  C4. The claim is that a path with at least two segments whose segment 1 is
  \<open>metadata\<close> is converted to the same path with segment 1 replaced by \<open>data\<close> and every
  other segment unchanged. The code does that from three segments on
  (\<open>toDataPath_three_segments\<close>) and converting twice is converting once
  (\<open>toDataPath_idem\<close>), but on a path of exactly two segments it appends a slash:
  \<open>kv/metadata\<close> becomes \<open>kv/data/\<close>, a path of three segments, where the substitution
  gives \<open>kv/data\<close>. The guard \<^verbatim>\<open>len(parts) >= 2\<close> lets through a path with nothing to
  join after segment 1; \<^verbatim>\<open>writeSecretToFile\<close> and \<^verbatim>\<open>PushSecretsFromFiles\<close> guard the
  same \<^verbatim>\<open>strings.Join(parts[2:], "/")\<close> with \<^verbatim>\<open>len(parts) > 2\<close>.
\<close>

theorem toDataPath_two_segments:
  "toDataPath ''kv/metadata'' = ''kv/data/''
   \<and> substituteSegment1 ''kv/metadata'' = ''kv/data''
   \<and> split_on slash (toDataPath ''kv/metadata'') = [''kv'', ''data'', '''']"
  by (simp add: toDataPath_def substituteSegment1_def)

subsection \<open>C5: the rewrite of the walker\<close>

text \<open>
  C5. For every traversal path \<open>currentPath\<close> whose segments are an engine name,
  \<open>metadata\<close> and any further segments, and every key, the path the payload of the leaf
  is fetched from (the \<open>kv/metadata\<close> rewrite of the walker, then the conversion of
  \<open>GetSecret\<close>) is \<open>currentPath + "/" + key\<close> with segment 1 replaced by \<open>data\<close>. It holds
  for every engine name and every depth, and for the keys that are not folders in
  particular.
\<close>

theorem walker_rewrite_equivalence:
  assumes form: "split_on slash currentPath = engine # ''metadata'' # deeper"
  shows "leafDataPath currentPath key = substituteSegment1 (currentPath @ ''/'' @ key)"
proof -
  have e: "slash \<notin> set engine"
    using split_on_pieces_no_sep [of engine slash currentPath] form by simp
  have cur: "currentPath = join_with ''/'' (engine # ''metadata'' # deeper)"
    using join_split [of slash currentPath] form by simp
  have sp: "split_on slash (currentPath @ ''/'' @ key)
              = engine # ''metadata'' # (deeper @ split_on slash key)"
    using split_on_append [of slash currentPath key] form by simp
  have spec: "substituteSegment1 (currentPath @ ''/'' @ key)
              = engine @ ''/data/'' @ join_with ''/'' (deeper @ split_on slash key)"
    using sp by (simp add: substituteSegment1_def join_with_Cons)
  show ?thesis
  proof (cases "length currentPath \<ge> 11 \<and> take 11 currentPath = ''kv/metadata''")
    case False
    then have "leafSecretPath currentPath key = currentPath @ ''/'' @ key"
      by (rule leafSecretPath_other)
    then show ?thesis
      using toDataPath_metadata [OF sp] spec by (simp add: leafDataPath_def)
  next
    case True
    have tail: "currentPath = engine @ ''/metadata''
                  @ (if deeper = [] then [] else ''/'' @ join_with ''/'' deeper)"
      using cur by (cases deeper) (simp_all add: join_with_Cons)
    then have kv: "engine = ''kv''"
      using True
        engine_is_kv [OF e, of "if deeper = [] then [] else ''/'' @ join_with ''/'' deeper"]
      by simp
    have d11: "drop 11 currentPath = (if deeper = [] then [] else ''/'' @ join_with ''/'' deeper)"
      using tail kv by simp
    have lsp: "leafSecretPath currentPath key
               = ''kv'' @ ''/data/'' @ join_with ''/'' (deeper @ split_on slash key)"
    proof (cases "deeper = []")
      case True
      with d11 show ?thesis
        by (simp add: leafSecretPath_kv
              [OF \<open>length currentPath \<ge> 11 \<and> take 11 currentPath = ''kv/metadata''\<close>])
    next
      case False
      with d11 show ?thesis
        by (simp add: leafSecretPath_kv
              [OF \<open>length currentPath \<ge> 11 \<and> take 11 currentPath = ''kv/metadata''\<close>]
              join_with_append)
    qed
    have "toDataPath (''kv'' @ ''/data/'' @ join_with ''/'' (deeper @ split_on slash key))
          = ''kv'' @ ''/data/'' @ join_with ''/'' (deeper @ split_on slash key)"
      by (rule toDataPath_data [OF split_on_slash_data]) simp
    then show ?thesis using lsp spec kv by (simp add: leafDataPath_def)
  qed
qed

theorem walker_rewrite_equivalence_witness:
  "split_on slash ''secret/metadata/team/metadata''
     = ''secret'' # ''metadata'' # [''team'', ''metadata'']
   \<and> leafDataPath ''secret/metadata/team/metadata'' ''db'' = ''secret/data/team/metadata/db''
   \<and> leafDataPath ''kv/metadata/team/metadata'' ''db'' = ''kv/data/team/metadata/db''"
  using walker_rewrite_equivalence
      [of "''secret/metadata/team/metadata''" "''secret''" "[''team'', ''metadata'']" "''db''"]
    walker_rewrite_equivalence
      [of "''kv/metadata/team/metadata''" "''kv''" "[''team'', ''metadata'']" "''db''"]
  by (simp add: substituteSegment1_def)

subsection \<open>C6: what fails a push\<close>

text \<open>
  C6. Take a push whose metadata path is well formed and whose base directory exists,
  and a file \<open>filePath\<close> with the extension \<open>.yaml\<close> in the walk such that the function
  returned no error on the entries \<open>pre\<close> before it. Then
  \<^item> if the file cannot be read, the push returns \<open>ReadFileFailed filePath e\<close>;
  \<^item> if its text cannot be decoded, the push returns \<open>ParseYamlFailed filePath e\<close>;
  \<^item> if the push is not a dry run and the server refuses the secret with \<open>e\<close>, the push
    returns \<open>e\<close>;
  and in each case the trace ends with the effects on that file: the entries \<open>post\<close>
  after it in the walk are not read and nothing is sent for them.
\<close>

theorem push_fail_fast:
  assumes path: "split_on slash metadataPath = kvEngine # ''metadata'' # rest"
    and sub: "subPath = (if rest = [] then '''' else join_with ''/'' rest)"
    and base: "baseDir = (if rest = [] then inputDir else Join inputDir subPath)"
    and exists: "\<not> StatNotExist v baseDir"
    and walk: "Walk v baseDir = pre @ (filePath, False, None) # post"
    and yaml: "HasSuffix filePath ''.yaml''"
    and before: "walkFiles (pushVisit v kvEngine subPath baseDir dryRun) pre tr = (None, tr1)"
  shows
    "(ReadFile v filePath = Inl e \<longrightarrow>
        PushSecretsFromFiles v inputDir metadataPath dryRun tr
          = (Some (ReadFileFailed filePath e), tr1 @ [FsReadFile filePath]))
     \<and> (ReadFile v filePath = Inr yamlData \<and> yamlUnmarshal v yamlData = Inl e \<longrightarrow>
        PushSecretsFromFiles v inputDir metadataPath dryRun tr
          = (Some (ParseYamlFailed filePath e), tr1 @ [FsReadFile filePath]))
     \<and> (ReadFile v filePath = Inr yamlData \<and> yamlUnmarshal v yamlData = Inr secretData
          \<and> fileVaultPath kvEngine subPath baseDir filePath = Inr vaultPath
          \<and> \<not> dryRun \<and> httpPost v (toDataPath vaultPath) secretData = Some e \<longrightarrow>
        PushSecretsFromFiles v inputDir metadataPath dryRun tr
          = (Some e, tr1 @ [FsReadFile filePath, PrintPushing vaultPath,
                            ReqPost (toDataPath vaultPath) secretData]))"
proof -
  have push: "PushSecretsFromFiles v inputDir metadataPath dryRun tr
      = walkFiles (pushVisit v kvEngine subPath baseDir dryRun)
          (pre @ (filePath, False, None) # post) tr"
    using path sub base exists walk
    by (cases rest) (simp_all add: PushSecretsFromFiles_def Let_def)
  show ?thesis
  proof (intro conjI impI)
    assume "ReadFile v filePath = Inl e"
    then have "pushVisit v kvEngine subPath baseDir dryRun (filePath, False, None) tr1
                 = (Some (ReadFileFailed filePath e), tr1 @ [FsReadFile filePath])"
      using yaml by (simp add: pushVisit_def)
    from walkFiles_stops [OF before this] push
    show "PushSecretsFromFiles v inputDir metadataPath dryRun tr
          = (Some (ReadFileFailed filePath e), tr1 @ [FsReadFile filePath])"
      by simp
  next
    assume "ReadFile v filePath = Inr yamlData \<and> yamlUnmarshal v yamlData = Inl e"
    then have "pushVisit v kvEngine subPath baseDir dryRun (filePath, False, None) tr1
                 = (Some (ParseYamlFailed filePath e), tr1 @ [FsReadFile filePath])"
      using yaml by (simp add: pushVisit_def)
    from walkFiles_stops [OF before this] push
    show "PushSecretsFromFiles v inputDir metadataPath dryRun tr
          = (Some (ParseYamlFailed filePath e), tr1 @ [FsReadFile filePath])"
      by simp
  next
    assume "ReadFile v filePath = Inr yamlData \<and> yamlUnmarshal v yamlData = Inr secretData
          \<and> fileVaultPath kvEngine subPath baseDir filePath = Inr vaultPath
          \<and> \<not> dryRun \<and> httpPost v (toDataPath vaultPath) secretData = Some e"
    then have "pushVisit v kvEngine subPath baseDir dryRun (filePath, False, None) tr1
                 = (Some e, tr1 @ [FsReadFile filePath, PrintPushing vaultPath,
                                   ReqPost (toDataPath vaultPath) secretData])"
      using yaml by (simp add: pushVisit_def PutSecret_def Let_def)
    from walkFiles_stops [OF before this] push
    show "PushSecretsFromFiles v inputDir metadataPath dryRun tr
          = (Some e, tr1 @ [FsReadFile filePath, PrintPushing vaultPath,
                            ReqPost (toDataPath vaultPath) secretData])"
      by simp
  qed
qed

theorem push_fail_fast_witness:
  "split_on slash ''kv/metadata/app'' = ''kv'' # ''metadata'' # [''app'']
   \<and> Walk demoEnv ''in/app''
       = [(''in/app'', True, None)] @ (''in/app/a.yaml'', False, None)
           # [(''in/app/b.yaml'', False, None)]
   \<and> httpPost demoEnv (toDataPath ''kv/metadata/app/a'') ''k: v\<newline>''
       = Some (External ''HTTP 403'')
   \<and> PushSecretsFromFiles demoEnv ''in'' ''kv/metadata/app'' False []
       = (Some (External ''HTTP 403''),
          [FsReadFile ''in/app/a.yaml'', PrintPushing ''kv/metadata/app/a'',
           ReqPost ''kv/data/app/a'' ''k: v\<newline>''])"
proof -
  have 1: "split_on slash ''kv/metadata/app'' = ''kv'' # ''metadata'' # [''app'']"
    by simp
  have 2: "''app'' = (if [''app''] = [] then '''' else join_with ''/'' [''app''])"
    by simp
  have 3: "''in/app'' = (if [''app''] = [] then ''in'' else Join ''in'' ''app'')"
    by code_simp
  have 4: "\<not> StatNotExist demoEnv ''in/app''"
    by code_simp
  have 5: "Walk demoEnv ''in/app''
       = [(''in/app'', True, None)] @ (''in/app/a.yaml'', False, None)
           # [(''in/app/b.yaml'', False, None)]"
    by code_simp
  have 6: "HasSuffix ''in/app/a.yaml'' ''.yaml''"
    by code_simp
  have 7: "walkFiles (pushVisit demoEnv ''kv'' ''app'' ''in/app'' False)
             [(''in/app'', True, None)] [] = (None, [])"
    by (simp add: pushVisit_def)
  have 8: "ReadFile demoEnv ''in/app/a.yaml'' = Inr ''k: v\<newline>''"
    by code_simp
  have 9: "yamlUnmarshal demoEnv ''k: v\<newline>'' = Inr ''k: v\<newline>''"
    by code_simp
  have 10: "fileVaultPath ''kv'' ''app'' ''in/app'' ''in/app/a.yaml'' = Inr ''kv/metadata/app/a''"
    by code_simp
  have 11: "toDataPath ''kv/metadata/app/a'' = ''kv/data/app/a''"
    by code_simp
  have 12: "httpPost demoEnv ''kv/data/app/a'' ''k: v\<newline>'' = Some (External ''HTTP 403'')"
    by code_simp
  from push_fail_fast [OF 1 2 3 4 5 6 7, where yamlData = "''k: v\<newline>''"
      and secretData = "''k: v\<newline>''" and vaultPath = "''kv/metadata/app/a''"
      and e = "External ''HTTP 403''"] 8 9 10 11 12
  have "PushSecretsFromFiles demoEnv ''in'' ''kv/metadata/app'' False []
       = (Some (External ''HTTP 403''),
          [FsReadFile ''in/app/a.yaml'', PrintPushing ''kv/metadata/app/a'',
           ReqPost ''kv/data/app/a'' ''k: v\<newline>''])"
    by simp
  with 1 5 11 12 show ?thesis by simp
qed

subsection \<open>C7: the diff of a secret that is not there yet\<close>

text \<open>
  C7. The claim is that, when the fetch of the existing secret fails, the diff consists
  of the five header lines followed by every line of the YAML text of the new payload
  with a \<open>+\<close> in front: \<open>claimedNewFileDiff\<close>. The loop of the code runs over the pieces of
  \<^verbatim>\<open>strings.Split(newYaml, "\n")\<close> and writes a piece when
  \<^verbatim>\<open>line != "" || strings.HasSuffix(newYaml, "\n")\<close>. The texts of the encoder end with a
  newline, so the guard holds for every piece, and the empty piece after the last
  newline is written too: whenever the text ends with a newline, \<open>showDryRunDiff\<close> returns
  no error and hands \<open>outputDiff\<close> the diff of the claim followed by one more line, a \<open>+\<close>
  with nothing after it. For the payload \<open>a: 1\<close>, a text of one line, the lines after the
  header are \<open>+a: 1\<close> and \<open>+\<close>. On these texts the guard holds nothing back, while the
  diff of two texts, \<open>generateUnifiedDiff\<close>, never marks an empty line.
\<close>

theorem new_secret_diff_trailing_line:
  assumes absent: "httpGet v (toDataPath p) = Inl e"
    and enc: "y = marshalOrEmpty v N"
    and ended: "HasSuffix y ''\<newline>''"
  shows "showDryRunDiff v p N tr
           = (None, tr @ [PrintDebugGet p (toDataPath p), ReqGet (toDataPath p),
                          OutputDiff (claimedNewFileDiff p y @ ''+\<newline>'')])"
proof -
  have "newFileDiff p y = claimedNewFileDiff p y @ ''+\<newline>''"
    using newFileDiff_lines [of p y] ended
    by (simp add: claimedNewFileDiff_def unlines_def)
  then show ?thesis
    using absent enc newFileDiff_nonempty [of p y]
    by (simp add: showDryRunDiff_def GetSecret_def Let_def)
qed

theorem new_secret_diff_trailing_line_witness:
  "httpGet offlineEnv (toDataPath ''p/x'') = Inl (External ''HTTP 404'')
   \<and> ''a: 1\<newline>'' = marshalOrEmpty offlineEnv ''a: 1\<newline>''
   \<and> HasSuffix ''a: 1\<newline>'' ''\<newline>''
   \<and> showDryRunDiff offlineEnv ''p/x'' ''a: 1\<newline>'' []
       = (None, [PrintDebugGet ''p/x'' ''p/x'', ReqGet ''p/x'',
                 OutputDiff (unlines [''diff --git a/p/x b/p/x'', ''new file mode 100644'',
                                      ''index 0000000..571c380'', ''--- /dev/null'',
                                      ''+++ b/p/x'', ''+a: 1'', ''+''])])
   \<and> claimedNewFileDiff ''p/x'' ''a: 1\<newline>''
       = unlines [''diff --git a/p/x b/p/x'', ''new file mode 100644'',
                  ''index 0000000..571c380'', ''--- /dev/null'', ''+++ b/p/x'', ''+a: 1'']"
proof -
  have 1: "httpGet offlineEnv (toDataPath ''p/x'') = Inl (External ''HTTP 404'')"
    by code_simp
  have 2: "''a: 1\<newline>'' = marshalOrEmpty offlineEnv ''a: 1\<newline>''"
    by code_simp
  have 3: "HasSuffix ''a: 1\<newline>'' ''\<newline>''"
    by code_simp
  have 4: "claimedNewFileDiff ''p/x'' ''a: 1\<newline>''
       = unlines [''diff --git a/p/x b/p/x'', ''new file mode 100644'',
                  ''index 0000000..571c380'', ''--- /dev/null'', ''+++ b/p/x'', ''+a: 1'']"
    by code_simp
  have 5: "toDataPath ''p/x'' = ''p/x''"
    by code_simp
  have 6: "unlines [''diff --git a/p/x b/p/x'', ''new file mode 100644'',
                  ''index 0000000..571c380'', ''--- /dev/null'', ''+++ b/p/x'', ''+a: 1'']
             @ ''+\<newline>''
           = unlines [''diff --git a/p/x b/p/x'', ''new file mode 100644'',
                  ''index 0000000..571c380'', ''--- /dev/null'', ''+++ b/p/x'', ''+a: 1'', ''+'']"
    by (simp add: unlines_def)
  have 7: "showDryRunDiff offlineEnv ''p/x'' ''a: 1\<newline>'' []
       = (None, [PrintDebugGet ''p/x'' ''p/x'', ReqGet ''p/x'',
                 OutputDiff (unlines [''diff --git a/p/x b/p/x'', ''new file mode 100644'',
                                      ''index 0000000..571c380'', ''--- /dev/null'',
                                      ''+++ b/p/x'', ''+a: 1'', ''+''])])"
    using new_secret_diff_trailing_line [OF 1 2 3, of "[]"] unfolding 4 5 6 by simp
  show ?thesis by (intro conjI 1 2 3 7 4)
qed

subsection \<open>C8: the hunks of a diff\<close>



subsection \<open>C9: the short hash\<close>

text \<open>
  C9. The claim is that the short hash of every text is a string of exactly seven
  hexadecimal digits. The hash is a function of the text, a polynomial in 31 over its
  code points in wrapping 64-bit arithmetic, and \<^verbatim>\<open>if hash < 0 { hash = -hash }\<close> is
  there to make it non-negative; but the negation of the least 64-bit integer is that
  integer again. The YAML text of the secret \<open>password: 7ABrhrvkcjanx\<close> hashes to it,
  the remainder is \<open>-128\<close>, and the result is \<open>-000080\<close>: seven characters, the first
  of them a minus sign. For every text whose wrapped hash is another value the result
  is seven hexadecimal digits (\<open>generateShortHash_digits\<close>).
\<close>

theorem generateShortHash_min_int:
  "generateShortHash ''password: 7ABrhrvkcjanx\<newline>'' = ''-000080''"
  by code_simp

subsection \<open>C10: empty lines are never marked\<close>

text \<open>
  C10. In the diff of two different texts, the lines of the hunks that begin with \<open>-\<close>
  or \<open>+\<close> are, in order and for every line number \<open>i\<close> at which the texts differ: the old
  line \<open>i\<close> with \<open>-\<close> if and only if it is not empty, then the new line \<open>i\<close> with \<open>+\<close> if and
  only if it is not empty (a line past the end of a text reads as empty). Hence, when
  the texts differ on one line only, which is empty in one text and not in the other,
  the diff marks one side only: one \<open>-\<close> line and no \<open>+\<close> line, or one \<open>+\<close> line and no
  \<open>-\<close> line.
\<close>

theorem empty_lines_unmarked:
  assumes "existing \<noteq> new"
    and "el = split_on newline existing" and "nl = split_on newline new"
  shows "\<exists>hunks.
           generateUnifiedDiff existing new filename
             = diffHeader existing new filename @ concat (map renderHunk hunks)
           \<and> filter (\<lambda>l. isRemoved l \<or> isAdded l) (concat (map snd hunks))
             = concat (map (\<lambda>i. if lineAt el i = lineAt nl i then []
                                  else (if lineAt el i \<noteq> '''' then [CHR ''-'' # lineAt el i]
                                        else [])
                                       @ (if lineAt nl i \<noteq> '''' then [CHR ''+'' # lineAt nl i]
                                          else []))
                        [0 ..< max (length el) (length nl)])
           \<and> (\<forall>i. (\<forall>j. j \<noteq> i \<longrightarrow> lineAt el j = lineAt nl j)
                    \<and> lineAt el i \<noteq> '''' \<and> lineAt nl i = ''''
                  \<longrightarrow> filter (\<lambda>l. isRemoved l \<or> isAdded l) (concat (map snd hunks))
                        = [CHR ''-'' # lineAt el i])
           \<and> (\<forall>i. (\<forall>j. j \<noteq> i \<longrightarrow> lineAt el j = lineAt nl j)
                    \<and> lineAt el i = '''' \<and> lineAt nl i \<noteq> ''''
                  \<longrightarrow> filter (\<lambda>l. isRemoved l \<or> isAdded l) (concat (map snd hunks))
                        = [CHR ''+'' # lineAt nl i])"
proof -
  from generateUnifiedDiff_hunks [OF assms(1), of filename]
  obtain hs where out: "generateUnifiedDiff existing new filename
                          = diffHeader existing new filename @ concat (map renderHunk hs)"
    and wf: "list_all (wellFormedHunk el nl) hs"
    and ch: "filter (\<lambda>l. \<not> isContext l) (concat (map snd hs))
             = concat (map (positionalChange el nl) [0 ..< max (length el) (length nl)])"
    unfolding assms(2,3) by blast
  have marked: "filter (\<lambda>l. isRemoved l \<or> isAdded l) (concat (map snd hs))
                = concat (map (positionalChange el nl) [0 ..< max (length el) (length nl)])"
    using wellFormed_marked [OF wf] ch by simp
  have rule: "positionalChange el nl
              = (\<lambda>i. if lineAt el i = lineAt nl i then []
                      else (if lineAt el i \<noteq> '''' then [CHR ''-'' # lineAt el i] else [])
                           @ (if lineAt nl i \<noteq> '''' then [CHR ''+'' # lineAt nl i] else []))"
    by (rule ext) (simp add: positionalChange_def)
  have removed: "filter (\<lambda>l. isRemoved l \<or> isAdded l) (concat (map snd hs))
                 = [CHR ''-'' # lineAt el i]"
    if "\<forall>j. j \<noteq> i \<longrightarrow> lineAt el j = lineAt nl j" "lineAt el i \<noteq> ''''" "lineAt nl i = ''''"
    for i
  proof -
    from that have "lineAt el i \<noteq> lineAt nl i" by simp
    from positionalChange_single [OF that(1) this] marked that(2,3)
    show ?thesis by (simp add: positionalChange_def)
  qed
  have added: "filter (\<lambda>l. isRemoved l \<or> isAdded l) (concat (map snd hs))
               = [CHR ''+'' # lineAt nl i]"
    if "\<forall>j. j \<noteq> i \<longrightarrow> lineAt el j = lineAt nl j" "lineAt el i = ''''" "lineAt nl i \<noteq> ''''"
    for i
  proof -
    from that have "lineAt el i \<noteq> lineAt nl i" by simp
    from positionalChange_single [OF that(1) this] marked that(2,3)
    show ?thesis by (simp add: positionalChange_def)
  qed
  show ?thesis
  proof (intro exI conjI allI impI)
    show "generateUnifiedDiff existing new filename
            = diffHeader existing new filename @ concat (map renderHunk hs)"
      by (rule out)
    show "filter (\<lambda>l. isRemoved l \<or> isAdded l) (concat (map snd hs))
          = concat (map (\<lambda>i. if lineAt el i = lineAt nl i then []
                               else (if lineAt el i \<noteq> '''' then [CHR ''-'' # lineAt el i]
                                     else [])
                                    @ (if lineAt nl i \<noteq> '''' then [CHR ''+'' # lineAt nl i]
                                       else []))
                     [0 ..< max (length el) (length nl)])"
      using marked unfolding rule .
    show "filter (\<lambda>l. isRemoved l \<or> isAdded l) (concat (map snd hs))
          = [CHR ''-'' # lineAt el i]"
      if "(\<forall>j. j \<noteq> i \<longrightarrow> lineAt el j = lineAt nl j)
          \<and> lineAt el i \<noteq> '''' \<and> lineAt nl i = ''''" for i
      using that removed [of i] by blast
    show "filter (\<lambda>l. isRemoved l \<or> isAdded l) (concat (map snd hs))
          = [CHR ''+'' # lineAt nl i]"
      if "(\<forall>j. j \<noteq> i \<longrightarrow> lineAt el j = lineAt nl j)
          \<and> lineAt el i = '''' \<and> lineAt nl i \<noteq> ''''" for i
      using that added [of i] by blast
  qed
qed

theorem empty_lines_unmarked_witness:
  "''a\<newline>b\<newline>c'' \<noteq> ''a\<newline>\<newline>c''
   \<and> generateUnifiedDiff ''a\<newline>b\<newline>c'' ''a\<newline>\<newline>c'' ''f''
       = diffHeader ''a\<newline>b\<newline>c'' ''a\<newline>\<newline>c'' ''f''
         @ ''@@ -1,3 +1,2 @@\<newline>'' @ unlines ['' a'', ''-b'', '' c'']
   \<and> (\<exists>hunks.
         generateUnifiedDiff ''a\<newline>b\<newline>c'' ''a\<newline>\<newline>c'' ''f''
           = diffHeader ''a\<newline>b\<newline>c'' ''a\<newline>\<newline>c'' ''f''
             @ concat (map renderHunk hunks)
         \<and> filter (\<lambda>l. isRemoved l \<or> isAdded l) (concat (map snd hunks)) = [''-b''])"
proof -
  have ne: "''a\<newline>b\<newline>c'' \<noteq> ''a\<newline>\<newline>c''"
    by simp
  have v: "generateUnifiedDiff ''a\<newline>b\<newline>c'' ''a\<newline>\<newline>c'' ''f''
       = diffHeader ''a\<newline>b\<newline>c'' ''a\<newline>\<newline>c'' ''f''
         @ ''@@ -1,3 +1,2 @@\<newline>'' @ unlines ['' a'', ''-b'', '' c'']"
    by code_simp
  have el: "split_on newline ''a\<newline>b\<newline>c'' = [''a'', ''b'', ''c'']"
    and nl: "split_on newline ''a\<newline>\<newline>c'' = [''a'', '''', ''c'']"
    by simp_all
  have one: "(\<forall>j. j \<noteq> 1 \<longrightarrow> lineAt [''a'', ''b'', ''c''] j = lineAt [''a'', '''', ''c''] j)
             \<and> lineAt [''a'', ''b'', ''c''] 1 \<noteq> ''''
             \<and> lineAt [''a'', '''', ''c''] 1 = ''''"
    by (auto simp: lineAt_def nth_Cons split: nat.splits)
  from empty_lines_unmarked [OF ne el [symmetric] nl [symmetric], of "''f''"]
  obtain hunks where
    o: "generateUnifiedDiff ''a\<newline>b\<newline>c'' ''a\<newline>\<newline>c'' ''f''
       = diffHeader ''a\<newline>b\<newline>c'' ''a\<newline>\<newline>c'' ''f'' @ concat (map renderHunk hunks)"
    and r: "\<forall>i. (\<forall>j. j \<noteq> i \<longrightarrow> lineAt [''a'', ''b'', ''c''] j = lineAt [''a'', '''', ''c''] j)
              \<and> lineAt [''a'', ''b'', ''c''] i \<noteq> '''' \<and> lineAt [''a'', '''', ''c''] i = ''''
            \<longrightarrow> filter (\<lambda>l. isRemoved l \<or> isAdded l) (concat (map snd hunks))
                  = [CHR ''-'' # lineAt [''a'', ''b'', ''c''] i]"
    by blast
  have b: "lineAt [''a'', ''b'', ''c''] 1 = ''b''"
    by (simp add: lineAt_def)
  have m: "filter (\<lambda>l. isRemoved l \<or> isAdded l) (concat (map snd hunks)) = [''-b'']"
    using r [rule_format, of 1, OF one] unfolding b by simp
  have ex: "\<exists>hunks.
         generateUnifiedDiff ''a\<newline>b\<newline>c'' ''a\<newline>\<newline>c'' ''f''
           = diffHeader ''a\<newline>b\<newline>c'' ''a\<newline>\<newline>c'' ''f''
             @ concat (map renderHunk hunks)
         \<and> filter (\<lambda>l. isRemoved l \<or> isAdded l) (concat (map snd hunks)) = [''-b'']"
    by (rule exI [of _ hunks], rule conjI [OF o m])
  show ?thesis
    by (intro conjI ne v ex)
qed

end
